theory Spec2Isabelle
  imports Complex_Main "HOL-Library.AList" "HOL-Library.Log_Nat"
begin

unbundle bit_operations_syntax

section \<open>Python values: errors, dictionaries, shifts, loops\<close>

text \<open>
  The program is Python. Its integers are unbounded, so they are \<open>int\<close>; the bitwise
  operators \<open>&\<close>, \<open>|\<close>, \<open>^\<close> are \<open>AND\<close>, \<open>OR\<close>, \<open>XOR\<close> on \<open>int\<close>.
  Every operation of the source that can raise is a function into \<open>py_error + 'a\<close>:
  a shift by a negative count raises ValueError, a missing dictionary key raises
  KeyError, a list index out of range raises IndexError, \<open>max\<close> of an empty
  iterable raises ValueError, and a division by zero raises ZeroDivisionError.
\<close>

datatype py_error = ValueError | KeyError | IndexError | ZeroDivisionError

definition py_bind :: "py_error + 'a \<Rightarrow> ('a \<Rightarrow> py_error + 'b) \<Rightarrow> py_error + 'b" where
  "py_bind m f = (case m of Inl e \<Rightarrow> Inl e | Inr x \<Rightarrow> f x)"

text \<open>
  A dictionary is the list of its items in insertion order (the order Python iterates
  in); its keys are distinct. \<open>d[k]\<close> is \<open>dict_getitem\<close>, \<open>d.get(k, default)\<close> is
  \<open>dict_get\<close>, and the assignment \<open>d[k] = v\<close> is \<open>AList.update k v d\<close>: an existing
  key keeps its place, a new key goes to the end.
\<close>

definition dict_getitem :: "('k \<times> 'v) list \<Rightarrow> 'k \<Rightarrow> py_error + 'v" where
  "dict_getitem d k = (case map_of d k of None \<Rightarrow> Inl KeyError | Some v \<Rightarrow> Inr v)"

definition dict_get :: "('k \<times> 'v) list \<Rightarrow> 'k \<Rightarrow> 'v \<Rightarrow> 'v" where
  "dict_get d k dflt = (case map_of d k of None \<Rightarrow> dflt | Some v \<Rightarrow> v)"

definition list_getitem :: "'a list \<Rightarrow> int \<Rightarrow> py_error + 'a" where
  "list_getitem xs i =
     (if 0 \<le> i \<and> i < int (length xs) then Inr (xs ! nat i)
      else if i < 0 \<and> 0 \<le> int (length xs) + i then Inr (xs ! nat (int (length xs) + i))
      else Inl IndexError)"

definition py_rshift :: "int \<Rightarrow> int \<Rightarrow> py_error + int" where
  "py_rshift x c = (if c < 0 then Inl ValueError else Inr (drop_bit (nat c) x))"

definition py_lshift :: "int \<Rightarrow> int \<Rightarrow> py_error + int" where
  "py_lshift x c = (if c < 0 then Inl ValueError else Inr (push_bit (nat c) x))"

text \<open>\<open>range(a, b)\<close>, and \<open>range(0, b, 4)\<close>: the multiples of 4 below \<open>b\<close>.\<close>

definition py_range :: "int \<Rightarrow> int \<Rightarrow> int list" where
  "py_range a b = [a..b - 1]"

definition py_range_step4 :: "int \<Rightarrow> int list" where
  "py_range_step4 b = filter (\<lambda>i. i mod 4 = 0) [0..b - 1]"

text \<open>A \<open>for\<close> loop over a list whose body may raise: the first error ends the loop.\<close>

fun for_each :: "('i \<Rightarrow> 's \<Rightarrow> py_error + 's) \<Rightarrow> 'i list \<Rightarrow> 's \<Rightarrow> py_error + 's" where
  "for_each body [] s = Inr s"
| "for_each body (i # is) s = py_bind (body i s) (for_each body is)"

text \<open>
  \<open>max(d, key=d.get)\<close> over a dictionary: the keys are visited in insertion order and
  the current best is replaced only by a strictly greater value, so the first key with
  the maximal value is returned. An empty dictionary raises ValueError.
\<close>

fun max_scan :: "('k \<times> int) list \<Rightarrow> 'k \<times> int \<Rightarrow> 'k \<times> int" where
  "max_scan [] best = best"
| "max_scan ((k, v) # kvs) best = max_scan kvs (if snd best < v then (k, v) else best)"

definition py_max_key :: "('k \<times> int) list \<Rightarrow> py_error + 'k" where
  "py_max_key d = (case d of [] \<Rightarrow> Inl ValueError | kv # kvs \<Rightarrow> Inr (fst (max_scan kvs kv)))"

text \<open>
  A Python float is an IEEE 754 binary64 number. Every finite one is a rational, so
  floats are modelled as the rationals they denote, and each float operation returns
  the exact result rounded to the nearest binary64 number, ties to the even
  significand (\<open>float_round\<close>). For \<open>2 ^ e \<le> \<bar>x\<bar> < 2 ^ (e + 1)\<close>, where \<open>e\<close> is \<open>ilog2 \<bar>x\<bar>\<close>,
  the floats around \<open>x\<close> are the multiples of \<open>2 ^ (e - 52)\<close>, and the multiples of
  \<open>2 ^ -1074\<close> in the subnormal range \<open>e < -1022\<close>; so an exact result of at most
  \<open>2 ^ -1075\<close> becomes \<open>0.0\<close>. \<open>a * b\<close> on floats is \<open>py_float_mul\<close> (an int operand is
  converted first; the only one here is 1), and \<open>a / b\<close> on ints is \<open>py_true_div\<close>, the
  correctly rounded quotient, ZeroDivisionError for \<open>b = 0\<close>. Overflow to infinity is
  not modelled: every float this program computes from its own table is a quotient
  \<open>count / data_size\<close> with \<open>0 \<le> count \<le> data_size\<close>, or a product of such quotients.
\<close>

definition ilog2 :: "rat \<Rightarrow> int" where
  "ilog2 x = (case quotient_of x of (a, b) \<Rightarrow>
               let e = bitlen a - bitlen b in if 2 powi e \<le> x then e else e - 1)"

definition round_half_even :: "rat \<Rightarrow> int" where
  "round_half_even r =
     (let f = \<lfloor>r\<rfloor>; d = r - of_int f
      in if d < 1 / 2 \<or> (d = 1 / 2 \<and> even f) then f else f + 1)"

definition float_round :: "rat \<Rightarrow> rat" where
  "float_round x =
     (if x = 0 then 0
      else let q = 2 powi (max (ilog2 \<bar>x\<bar> - 52) (- 1074))
           in sgn x * q * of_int (round_half_even (\<bar>x\<bar> / q)))"

definition py_float_mul :: "rat \<Rightarrow> rat \<Rightarrow> rat" where
  "py_float_mul a b = float_round (a * b)"

definition py_true_div :: "int \<Rightarrow> int \<Rightarrow> py_error + rat" where
  "py_true_div a b = (if b = 0 then Inl ZeroDivisionError else Inr (float_round (of_int a / of_int b)))"

text \<open>
  A float that is not negative is \<open>m * 2 ^ -e\<close> for integers \<open>m \<ge> 0\<close> and \<open>e\<close>. On such
  pairs the rounded product is computed with integers only: the exact product is
  \<open>t * 2 ^ -k\<close>, and it loses its \<open>s\<close> low bits, by \<open>round_shift\<close>, when \<open>t\<close> has more than
  53 bits or \<open>k\<close> is above 1074. The proofs evaluate long products this way.
\<close>

definition dyadic :: "int \<times> int \<Rightarrow> rat" where
  "dyadic me = of_int (fst me) * 2 powi (- snd me)"

definition round_shift :: "int \<Rightarrow> nat \<Rightarrow> int" where
  "round_shift t s =
     (let d = t div 2 ^ s; r = t mod 2 ^ s
      in if 2 * r < 2 ^ s \<or> (2 * r = 2 ^ s \<and> even d) then d else d + 1)"

definition float_mul_dyadic :: "int \<times> int \<Rightarrow> int \<times> int \<Rightarrow> int \<times> int" where
  "float_mul_dyadic a b =
     (let t = fst a * fst b; k = snd a + snd b; s = max (bitlen t - 53) (k - 1074)
      in if s \<le> 0 then (t, k) else (round_shift t (nat s), k - s))"

section \<open>sp\_network.py: the SP network\<close>

record SP_Network =
  keys :: "int list"
  substitution :: "(int \<times> int) list"
  inv_substitution :: "(int \<times> int) list"
  permutation :: "(int \<times> int) list"
  rounds :: int
  data_size :: int

text \<open>
  \<open>__init__\<close>: the size check, then the fields. The inverse table is the dictionary
  comprehension \<open>{v: k for k, v in substitution.items()}\<close>: the items are inserted in
  order, a repeated value overwrites the key stored before.
\<close>

definition SP_Network_init ::
    "int list \<Rightarrow> (int \<times> int) list \<Rightarrow> (int \<times> int) list \<Rightarrow> py_error + SP_Network" where
  "SP_Network_init ks subst perm =
     (if length subst \<noteq> length perm then Inl ValueError
      else Inr \<lparr> keys = ks,
                 substitution = subst,
                 inv_substitution = fold (\<lambda>(k, v) d. AList.update v k d) subst [],
                 permutation = perm,
                 rounds = int (length ks) - 1,
                 data_size = int (length subst) \<rparr>)"

definition keymix :: "SP_Network \<Rightarrow> int \<Rightarrow> int \<Rightarrow> py_error + int" where
  "keymix n round_num input_data =
     py_bind (list_getitem (keys n) round_num) (\<lambda>k. Inr (k XOR input_data))"

definition sbox :: "SP_Network \<Rightarrow> int \<Rightarrow> bool \<Rightarrow> int" where
  "sbox n input_data invert =
     dict_get (if invert then inv_substitution n else substitution n) input_data 0"

definition permute :: "SP_Network \<Rightarrow> int \<Rightarrow> py_error + int" where
  "permute n input_data =
     for_each (\<lambda>i output_data.
        py_bind (dict_getitem (permutation n) i) (\<lambda>p.
        py_bind (py_rshift input_data (data_size n - p)) (\<lambda>b.
        py_bind (py_lshift (b AND 1) (data_size n - i)) (\<lambda>s.
        Inr (output_data OR s)))))
       (py_range 1 (data_size n + 1)) 0"

definition substitute :: "SP_Network \<Rightarrow> int \<Rightarrow> bool \<Rightarrow> py_error + int" where
  "substitute n input_data invert =
     for_each (\<lambda>i output_data.
        py_bind (py_rshift input_data (data_size n - i - 4)) (\<lambda>g.
        Inr (push_bit 4 output_data OR sbox n (g AND 15) invert)))
       (py_range_step4 (data_size n)) 0"

definition run_round :: "SP_Network \<Rightarrow> int \<Rightarrow> int \<Rightarrow> py_error + int" where
  "run_round n index input_data =
     py_bind (keymix n index input_data) (\<lambda>buffer.
     py_bind (substitute n buffer False) (\<lambda>buffer.
     permute n buffer))"

definition run_reverse_round :: "SP_Network \<Rightarrow> int \<Rightarrow> int \<Rightarrow> py_error + int" where
  "run_reverse_round n index input_data =
     py_bind (permute n input_data) (\<lambda>buffer.
     py_bind (substitute n buffer True) (\<lambda>buffer.
     keymix n index buffer))"

definition run_last_round :: "SP_Network \<Rightarrow> int \<Rightarrow> py_error + int" where
  "run_last_round n input_data =
     py_bind (keymix n (rounds n - 1) input_data) (\<lambda>buffer.
     py_bind (substitute n buffer False) (\<lambda>buffer.
     keymix n (rounds n) buffer))"

definition run_reverse_last_round :: "SP_Network \<Rightarrow> int \<Rightarrow> py_error + int" where
  "run_reverse_last_round n input_data =
     py_bind (keymix n (rounds n) input_data) (\<lambda>buffer.
     py_bind (substitute n buffer True) (\<lambda>buffer.
     keymix n (rounds n - 1) buffer))"

definition encrypt :: "SP_Network \<Rightarrow> int \<Rightarrow> py_error + int" where
  "encrypt n plain =
     py_bind (for_each (\<lambda>i buffer. run_round n i buffer) (py_range 0 (rounds n - 1)) plain)
       (\<lambda>buffer. run_last_round n buffer)"

text \<open>\<open>range(rounds - 2, -1, -1)\<close> counts down from \<open>rounds - 2\<close> to 0.\<close>

definition decrypt :: "SP_Network \<Rightarrow> int \<Rightarrow> py_error + int" where
  "decrypt n cipher =
     py_bind (run_reverse_last_round n cipher) (\<lambda>buffer.
     for_each (\<lambda>i buffer. run_reverse_round n i buffer) (rev (py_range 0 (rounds n - 1))) buffer)"

section \<open>differential\_cryptanalysis.py: the analysis\<close>

record DifferentialCryptanalysis =
  sp_network :: SP_Network
  difference_distribution :: "(int \<times> (int \<times> int) list) list"
  data_size :: int

definition DifferentialCryptanalysis_init :: "SP_Network \<Rightarrow> DifferentialCryptanalysis" where
  "DifferentialCryptanalysis_init n =
     \<lparr> sp_network = n, difference_distribution = [], data_size = SP_Network.data_size n \<rparr>"

text \<open>
  \<open>calculate_difference_distribution\<close>. The innermost loop counts the \<open>x\<close> in
  \<open>range(data_size)\<close> whose output difference is \<open>delta_y\<close>; the middle loop fills a fresh
  dictionary, one key per \<open>delta_y\<close> in ascending order; the outer loop stores the row
  under \<open>delta_x\<close> in the table the object holds.
\<close>

definition ddt_count :: "DifferentialCryptanalysis \<Rightarrow> int \<Rightarrow> int \<Rightarrow> int" where
  "ddt_count dc delta_x delta_y =
     fold (\<lambda>x c.
        if sbox (sp_network dc) x False XOR sbox (sp_network dc) (x XOR delta_x) False = delta_y
        then c + 1 else c)
       (py_range 0 (data_size dc)) 0"

definition ddt_row :: "DifferentialCryptanalysis \<Rightarrow> int \<Rightarrow> (int \<times> int) list" where
  "ddt_row dc delta_x =
     map (\<lambda>delta_y. (delta_y, ddt_count dc delta_x delta_y)) (py_range 0 (data_size dc))"

definition calculate_difference_distribution ::
    "DifferentialCryptanalysis \<Rightarrow> DifferentialCryptanalysis" where
  "calculate_difference_distribution dc =
     dc \<lparr> difference_distribution :=
            fold (\<lambda>delta_x table. AList.update delta_x (ddt_row dc delta_x) table)
              (py_range 0 (data_size dc)) (difference_distribution dc) \<rparr>"

definition get_max_delta_y :: "DifferentialCryptanalysis \<Rightarrow> int \<Rightarrow> py_error + int" where
  "get_max_delta_y dc delta_x =
     py_bind (dict_getitem (difference_distribution dc) delta_x) py_max_key"

definition get_active_sboxes :: "int \<Rightarrow> int list" where
  "get_active_sboxes input_data =
     fold (\<lambda>i active_sboxes.
        if drop_bit (nat (i * 4)) input_data AND 15 > 0 then active_sboxes @ [4 - i]
        else active_sboxes)
       (py_range 0 4) []"

definition get_output_difference :: "DifferentialCryptanalysis \<Rightarrow> int \<Rightarrow> py_error + int" where
  "get_output_difference dc input_difference =
     for_each (\<lambda>i output.
        py_bind (py_rshift input_difference (data_size dc - i * 4)) (\<lambda>g.
        py_bind (get_max_delta_y dc (g AND 15)) (\<lambda>delta_y.
        py_bind (py_lshift delta_y (data_size dc - i * 4)) (\<lambda>s.
        Inr (output OR s)))))
       (get_active_sboxes input_difference) 0"

text \<open>
  The probability starts as the int 1 and is multiplied by the float quotients
  \<open>count / data_size\<close>; both loops use the float operations above.
\<close>

definition get_difference_pair_probability ::
    "DifferentialCryptanalysis \<Rightarrow> int \<Rightarrow> int \<Rightarrow> py_error + rat" where
  "get_difference_pair_probability dc u v =
     for_each (\<lambda>i probability.
        let delta_x = drop_bit (nat (i * 4)) u AND 15;
            delta_y = drop_bit (nat (i * 4)) v AND 15
        in if delta_x = 0 \<and> delta_y = 0 then Inr probability
           else py_bind (dict_getitem (difference_distribution dc) delta_x) (\<lambda>row.
                py_bind (dict_getitem row delta_y) (\<lambda>c.
                py_bind (py_true_div c (data_size dc)) (\<lambda>f.
                Inr (py_float_mul probability f)))))
       (py_range 0 4) 1"

definition get_differential_characteristic ::
    "DifferentialCryptanalysis \<Rightarrow> int \<Rightarrow> py_error + (int \<times> rat)" where
  "get_differential_characteristic dc delta_p =
     for_each (\<lambda>_ (u, probability).
        py_bind (get_output_difference dc u) (\<lambda>v.
        py_bind (get_difference_pair_probability dc u v) (\<lambda>q.
        py_bind (permute (sp_network dc) v) (\<lambda>u'.
        Inr (u', py_float_mul probability q)))))
       (py_range 0 (rounds (sp_network dc) - 1)) (delta_p, 1)"

text \<open>
  \<open>convert_to_block\<close>: \<open>groups.insert(0, g)\<close> puts each nibble in front, so the list
  ends most significant nibble first; the second loop reads \<open>active_sboxes[i]\<close> and
  \<open>groups[i]\<close>.
\<close>

definition convert_to_block ::
    "DifferentialCryptanalysis \<Rightarrow> int list \<Rightarrow> int \<Rightarrow> py_error + int" where
  "convert_to_block dc active_sboxes data =
     (let groups = fold (\<lambda>i groups. (drop_bit (nat (4 * i)) data AND 15) # groups)
                     (py_range 0 (int (length active_sboxes))) []
      in for_each (\<lambda>i output.
           py_bind (list_getitem active_sboxes i) (\<lambda>sbox_index.
           py_bind (list_getitem groups i) (\<lambda>group.
           py_bind (py_lshift group (data_size dc - sbox_index * 4)) (\<lambda>s.
           Inr (output OR s)))))
          (py_range 0 (int (length active_sboxes))) 0)"

definition check_expected_difference :: "int \<Rightarrow> int \<Rightarrow> int \<Rightarrow> bool" where
  "check_expected_difference partial_decryption_1 partial_decryption_2 diff_characteristic =
     (partial_decryption_1 XOR partial_decryption_2 = diff_characteristic)"

definition partial_decrypt :: "DifferentialCryptanalysis \<Rightarrow> int \<Rightarrow> int \<Rightarrow> py_error + int" where
  "partial_decrypt dc ciphertext subkey_value =
     substitute (sp_network dc) (ciphertext XOR subkey_value) True"

text \<open>
  \<open>perform_attack\<close>. \<open>pair_count\<close> is the \<open>sum(...)\<close> over the ciphertext pairs
  (a Python bool adds as 0 or 1); \<open>subkey_counts[subkey] = count\<close> is an update of the
  dictionary; the result is \<open>None\<close> when the dictionary is empty.
\<close>

definition pair_count ::
    "DifferentialCryptanalysis \<Rightarrow> (int \<times> int) list \<Rightarrow> int \<Rightarrow> int \<Rightarrow> py_error + int" where
  "pair_count dc ciphertext_pairs diff_characteristic subkey =
     for_each (\<lambda>(ciphertext_1, ciphertext_2) total.
        py_bind (partial_decrypt dc ciphertext_1 subkey) (\<lambda>p1.
        py_bind (partial_decrypt dc ciphertext_2 subkey) (\<lambda>p2.
        Inr (total + (if check_expected_difference p1 p2 diff_characteristic then 1 else 0)))))
       ciphertext_pairs 0"

definition perform_attack ::
    "DifferentialCryptanalysis \<Rightarrow> (int \<times> int) list \<Rightarrow> int \<Rightarrow> py_error + int option" where
  "perform_attack dc ciphertext_pairs diff_characteristic =
     (let active_sboxes = get_active_sboxes diff_characteristic;
          num_of_keys = (2 ^ 4) ^ length active_sboxes
      in py_bind
           (for_each (\<lambda>i subkey_counts.
              py_bind (convert_to_block dc active_sboxes i) (\<lambda>subkey.
              py_bind (pair_count dc ciphertext_pairs diff_characteristic subkey) (\<lambda>count.
              Inr (AList.update subkey count subkey_counts))))
             (py_range 1 num_of_keys) [])
           (\<lambda>subkey_counts.
              if subkey_counts \<noteq> [] then py_bind (py_max_key subkey_counts) (\<lambda>k. Inr (Some k))
              else Inr None))"

section \<open>main.py: the example cipher\<close>

text \<open>
  The literals of the driver, and its first steps with the literals as parameters:
  construct the network, encrypt, decrypt.
\<close>

definition main_keys :: "int list" where
  "main_keys = [1, 2, 3, 4, 516]"

definition main_permutation :: "(int \<times> int) list" where
  "main_permutation = [(1, 1), (2, 5), (3, 9), (4, 13), (5, 2), (6, 6), (7, 10), (8, 14),
                       (9, 3), (10, 7), (11, 11), (12, 15), (13, 4), (14, 8), (15, 12), (16, 16)]"

definition main_substitution :: "(int \<times> int) list" where
  "main_substitution = [(0, 14), (1, 4), (2, 13), (3, 1), (4, 2), (5, 15), (6, 11), (7, 8),
                        (8, 3), (9, 10), (10, 6), (11, 12), (12, 5), (13, 9), (14, 0), (15, 7)]"

definition main_cipher ::
    "int list \<Rightarrow> (int \<times> int) list \<Rightarrow> (int \<times> int) list \<Rightarrow> int \<Rightarrow> py_error + (int \<times> int)" where
  "main_cipher ks subst perm plaintext =
     py_bind (SP_Network_init ks subst perm) (\<lambda>n.
     py_bind (encrypt n plaintext) (\<lambda>encryption.
     py_bind (decrypt n encryption) (\<lambda>decryption.
     Inr (encryption, decryption))))"

text \<open>
  The driver's characteristic step: construct the network and the analysis, compute
  the table, propagate the input difference.
\<close>

definition main_characteristic ::
    "int list \<Rightarrow> (int \<times> int) list \<Rightarrow> (int \<times> int) list \<Rightarrow> int \<Rightarrow> py_error + (int \<times> rat)" where
  "main_characteristic ks subst perm delta_p =
     py_bind (SP_Network_init ks subst perm) (\<lambda>n.
     get_differential_characteristic
       (calculate_difference_distribution (DifferentialCryptanalysis_init n)) delta_p)"

text \<open>
  The driver's attack steps, again with the literals as parameters: construct the
  network and the analysis, compute the table, run the attack on the given pairs.
\<close>

definition main_attack ::
    "int list \<Rightarrow> (int \<times> int) list \<Rightarrow> (int \<times> int) list \<Rightarrow> (int \<times> int) list \<Rightarrow> int
       \<Rightarrow> py_error + int option" where
  "main_attack ks subst perm pairs u_comp =
     py_bind (SP_Network_init ks subst perm) (\<lambda>n.
     perform_attack (calculate_difference_distribution (DifferentialCryptanalysis_init n))
       pairs u_comp)"

section \<open>Basic facts about the Python layer\<close>

lemma py_bind_Inr [simp]: "py_bind (Inr x) f = f x"
  by (simp add: py_bind_def)

lemma py_bind_Inl [simp]: "py_bind (Inl e) f = Inl e"
  by (simp add: py_bind_def)

lemma for_each_fold:
  "(\<And>i s. i \<in> set is \<Longrightarrow> body i s = Inr (f i s)) \<Longrightarrow> for_each body is s = Inr (fold f is s)"
  by (induction "is" arbitrary: s) simp_all

lemma bit_fold_or:
  "bit (fold (\<lambda>i out. out OR push_bit (a i) (drop_bit (b i) x AND 1)) is (s::int)) k
     = (bit s k \<or> (\<exists>i\<in>set is. k = a i \<and> bit x (b i)))"
  by (induction "is" arbitrary: s) (auto simp add: bit_simps)

lemma for_each_map:
  "for_each body (map h js) s = for_each (\<lambda>j. body (h j)) js s"
  by (induction js arbitrary: s) (simp_all add: py_bind_def split: sum.splits)

lemma for_each_invariant:
  assumes "P s"
      and "\<And>i s. i \<in> set is \<Longrightarrow> P s \<Longrightarrow> \<exists>s'. body i s = Inr s' \<and> P s'"
  shows "\<exists>s'. for_each body is s = Inr s' \<and> P s'"
  using assms
proof (induction "is" arbitrary: s)
  case Nil
  then show ?case by simp
next
  case (Cons i "is")
  from Cons.prems obtain s1 where s1: "body i s = Inr s1" "P s1"
    by (meson list.set_intros(1))
  have "\<exists>s'. for_each body is s1 = Inr s' \<and> P s'"
    by (rule Cons.IH) (use s1 Cons.prems(2) in auto)
  with s1 show ?case by simp
qed

lemma for_each_append:
  "for_each body (xs @ ys) s = py_bind (for_each body xs s) (for_each body ys)"
  by (induction xs arbitrary: s) (simp_all add: py_bind_def split: sum.splits)

lemma for_each_undo:
  assumes "P s"
      and "\<And>i y. i \<in> set is \<Longrightarrow> P y \<Longrightarrow> \<exists>z. f i y = Inr z \<and> P z \<and> g i z = Inr y"
  shows "\<exists>s'. for_each f is s = Inr s' \<and> P s' \<and> for_each g (rev is) s' = Inr s"
  using assms
proof (induction "is" arbitrary: s)
  case Nil
  then show ?case by simp
next
  case (Cons i "is")
  from Cons.prems obtain z where z: "f i s = Inr z" "P z" "g i z = Inr s"
    by (meson list.set_intros(1))
  have "\<exists>s'. for_each f is z = Inr s' \<and> P s' \<and> for_each g (rev is) s' = Inr z"
    by (rule Cons.IH) (use z Cons.prems(2) in auto)
  then obtain s' where "for_each f is z = Inr s'" "P s'" "for_each g (rev is) s' = Inr z"
    by blast
  with z show ?case by (simp add: for_each_append)
qed

lemma py_bind_range:
  assumes "\<exists>y. a = Inr y \<and> P y" "\<And>y. P y \<Longrightarrow> \<exists>z. f y = Inr z \<and> Q z"
  shows "\<exists>z. py_bind a f = Inr z \<and> Q z"
  using assms by auto

lemma for_each_total:
  assumes "\<And>i s. i \<in> set is \<Longrightarrow> \<exists>s'. body i s = Inr s'"
  shows "\<exists>s'. for_each body is s = Inr s'"
proof -
  have "\<exists>s'. for_each body is s = Inr s' \<and> True"
    by (rule for_each_invariant) (use assms in auto)
  then show ?thesis by simp
qed

lemma for_each_counted:
  assumes "P 0 s"
      and "\<And>k s. k < length is \<Longrightarrow> P k s \<Longrightarrow> \<exists>s'. body (is ! k) s = Inr s' \<and> P (Suc k) s'"
  shows "\<exists>s'. for_each body is s = Inr s' \<and> P (length is) s'"
  using assms
proof (induction "is" arbitrary: s P)
  case Nil
  then show ?case by simp
next
  case (Cons i "is")
  from Cons.prems(2) [of 0 s] Cons.prems(1)
  obtain s1 where s1: "body i s = Inr s1" "P (Suc 0) s1" by auto
  have "\<exists>s'. for_each body is s1 = Inr s' \<and> P (Suc (length is)) s'"
  proof (rule Cons.IH [where P = "\<lambda>k. P (Suc k)"])
    show "P (Suc 0) s1" by fact
  next
    fix k s
    assume "k < length is" "P (Suc k) s"
    with Cons.prems(2) [of "Suc k" s]
    show "\<exists>s'. body (is ! k) s = Inr s' \<and> P (Suc (Suc k)) s'" by simp
  qed
  with s1 show ?case by simp
qed

lemma for_each_simulate:
  assumes "R s t"
      and "\<And>i s t. R s t \<Longrightarrow> \<exists>s'. body i s = Inr s' \<and> R s' (g t)"
  shows "\<exists>s'. for_each body is s = Inr s' \<and> R s' ((g ^^ length is) t)"
  using assms(1)
proof (induction "is" arbitrary: s t)
  case Nil
  then show ?case by simp
next
  case (Cons i "is")
  from assms(2) [OF Cons.prems] obtain s1 where s1: "body i s = Inr s1" "R s1 (g t)" by blast
  from Cons.IH [OF s1(2)] s1(1) show ?case by (simp add: funpow_swap1)
qed

section \<open>Facts about float rounding\<close>

text \<open>Powers of two with integer exponents.\<close>

lemma powi2_less: "((2::rat) powi a < 2 powi b) = (a < b)"
proof
  assume l: "(2::rat) powi a < 2 powi b"
  show "a < b"
  proof (rule ccontr)
    assume "\<not> a < b"
    then have "b \<le> a" by simp
    then have "(2::rat) powi b \<le> 2 powi a" by (rule power_int_increasing) simp
    with l show False by simp
  qed
next
  assume "a < b"
  then show "(2::rat) powi a < 2 powi b" by (rule power_int_strict_increasing) simp
qed

lemma powi2_le: "((2::rat) powi a \<le> 2 powi b) = (a \<le> b)"
  using powi2_less [of b a] by (simp add: not_less [symmetric])

lemma powi2_add: "(2::rat) powi (a + b) = 2 powi a * 2 powi b"
  by (simp add: power_int_add)

lemma powi2_diff: "(2::rat) powi (a - b) = 2 powi a / 2 powi b"
  by (simp add: power_int_diff)

lemma powi2_nat: "0 \<le> a \<Longrightarrow> (2::rat) powi a = of_int (2 ^ nat a)"
  by (simp add: power_int_def)

text \<open>\<open>ilog2 x\<close> is the binary exponent of a positive \<open>x\<close>: \<open>2 ^ ilog2 x \<le> x < 2 ^ (ilog2 x + 1)\<close>.\<close>

lemma bitlen_powi:
  assumes "0 < a"
  shows "2 powi (bitlen a - 1) \<le> (of_int a :: rat)" "(of_int a :: rat) < 2 powi (bitlen a)"
proof -
  have b: "0 < bitlen a" using assms bitlen_eq_zero_iff [of a] bitlen_nonneg [of a] by linarith
  from bitlen_bounds [OF assms] have "(of_int (2 ^ nat (bitlen a - 1)) :: rat) \<le> of_int a"
    "(of_int a :: rat) < of_int (2 ^ nat (bitlen a))"
    by (simp_all only: of_int_le_iff of_int_less_iff)
  then show "2 powi (bitlen a - 1) \<le> (of_int a :: rat)" "(of_int a :: rat) < 2 powi (bitlen a)"
    using b by (simp_all add: powi2_nat)
qed

lemma ilog2_bounds:
  assumes "0 < x"
  shows "2 powi (ilog2 x) \<le> x" "x < 2 powi (ilog2 x + 1)"
proof -
  obtain a b where q: "quotient_of x = (a, b)" by (cases "quotient_of x")
  then have b: "0 < b" and x: "x = of_int a / of_int b"
    by (rule quotient_of_denom_pos, rule quotient_of_div)
  with assms have a: "0 < a" by (simp add: zero_less_divide_iff)
  let ?e = "bitlen a - bitlen b"
  note A = bitlen_powi [OF a] and B = bitlen_powi [OF b]
  have lo: "2 powi (?e - 1) \<le> x"
  proof -
    have "2 powi (?e - 1) * of_int b \<le> 2 powi (?e - 1) * (2 powi (bitlen b) :: rat)"
      using B(2) by simp
    also have "\<dots> = 2 powi (bitlen a - 1)" by (simp add: powi2_add [symmetric])
    also have "\<dots> \<le> of_int a" by (rule A(1))
    finally show ?thesis using b by (simp add: x pos_le_divide_eq)
  qed
  have hi: "x < 2 powi (?e + 1)"
  proof -
    have "of_int a < (2 powi (bitlen a) :: rat)" by (rule A(2))
    also have "\<dots> = 2 powi (?e + 1) * 2 powi (bitlen b - 1)" by (simp add: powi2_add [symmetric])
    also have "\<dots> \<le> 2 powi (?e + 1) * of_int b" using B(1) by simp
    finally show ?thesis using b by (simp add: x pos_divide_less_eq)
  qed
  have i: "ilog2 x = (if 2 powi ?e \<le> x then ?e else ?e - 1)"
    by (simp add: ilog2_def q Let_def)
  show "2 powi (ilog2 x) \<le> x" using lo by (simp add: i)
  show "x < 2 powi (ilog2 x + 1)" using hi by (simp add: i not_le)
qed

lemma ilog2_unique:
  assumes "2 powi e \<le> x" "x < 2 powi (e + 1)"
  shows "ilog2 x = e"
proof -
  have "0 < (2::rat) powi e" by simp
  with assms(1) have x: "0 < x" by linarith
  note I = ilog2_bounds [OF x]
  from I(1) assms(2) have "(2::rat) powi (ilog2 x) < 2 powi (e + 1)" by linarith
  moreover from assms(1) I(2) have "(2::rat) powi e < 2 powi (ilog2 x + 1)" by linarith
  ultimately show ?thesis by (simp add: powi2_less)
qed

text \<open>
  Rounding to the nearest integer does not cross an integer, so \<open>float_round\<close> keeps a
  value of \<open>[0, 1]\<close> in \<open>[0, 1]\<close> and does not go below a power of two \<open>2 ^ -k\<close> with
  \<open>k \<le> 1074\<close>, which is a float.
\<close>

lemma round_half_even_of_int [simp]: "round_half_even (of_int m) = m"
  by (simp add: round_half_even_def)

lemma round_half_even_lower:
  assumes "of_int m \<le> r"
  shows "m \<le> round_half_even r"
proof -
  from assms have "m \<le> \<lfloor>r\<rfloor>" by (simp add: le_floor_iff)
  moreover have "\<lfloor>r\<rfloor> \<le> round_half_even r" by (simp add: round_half_even_def Let_def)
  ultimately show ?thesis by simp
qed

lemma round_half_even_upper:
  assumes "r \<le> of_int M"
  shows "round_half_even r \<le> M"
proof (cases "r = of_int M")
  case True
  then show ?thesis by simp
next
  case False
  with assms have "r < of_int M" by simp
  then have "\<lfloor>r\<rfloor> < M" by (simp add: floor_less_iff)
  then show ?thesis by (simp add: round_half_even_def Let_def)
qed

lemma float_round_unit:
  assumes "0 \<le> x" "x \<le> 1"
  shows "0 \<le> float_round x" "float_round x \<le> 1"
proof -
  define qe where "qe = max (ilog2 x - 52) (- 1074)"
  have fr: "float_round x = 2 powi qe * of_int (round_half_even (x / 2 powi qe))" if "x \<noteq> 0"
    using that assms(1) by (simp add: float_round_def qe_def Let_def)
  show "0 \<le> float_round x"
  proof (cases "x = 0")
    case True
    then show ?thesis by (simp add: float_round_def)
  next
    case False
    have "(of_int 0 :: rat) \<le> x / 2 powi qe" using assms(1) by simp
    then have "0 \<le> round_half_even (x / 2 powi qe)" by (rule round_half_even_lower)
    then show ?thesis by (simp add: fr [OF False])
  qed
  show "float_round x \<le> 1"
  proof (cases "x = 0")
    case True
    then show ?thesis by (simp add: float_round_def)
  next
    case False
    with assms have x: "0 < x" by simp
    from ilog2_bounds(1) [OF x] assms(2) have "(2::rat) powi (ilog2 x) \<le> 2 powi 0" by simp
    then have "ilog2 x \<le> 0" by (simp only: powi2_le)
    then have qe: "qe \<le> 0" by (simp add: qe_def)
    have "x / 2 powi qe \<le> 1 / 2 powi qe" using assms(2) by (simp add: divide_right_mono)
    also have "\<dots> = 2 powi (- qe)" by (simp add: power_int_minus divide_inverse)
    also have "\<dots> = of_int (2 ^ nat (- qe))" using qe by (simp add: powi2_nat)
    finally have "round_half_even (x / 2 powi qe) \<le> 2 ^ nat (- qe)" by (rule round_half_even_upper)
    then have "(of_int (round_half_even (x / 2 powi qe)) :: rat) \<le> of_int (2 ^ nat (- qe))"
      by (simp only: of_int_le_iff)
    also have "\<dots> = 2 powi (- qe)" using qe by (simp add: powi2_nat)
    finally have "2 powi qe * of_int (round_half_even (x / 2 powi qe)) \<le> 2 powi qe * (2 powi (- qe) :: rat)"
      by simp
    also have "\<dots> = 1" by (simp add: powi2_add [symmetric])
    finally show ?thesis by (simp add: fr [OF False])
  qed
qed

lemma float_round_lower:
  assumes "2 powi (- k) \<le> x" "k \<le> 1074"
  shows "2 powi (- k) \<le> float_round x"
proof -
  define qe where "qe = max (ilog2 x - 52) (- 1074)"
  have "0 < (2::rat) powi (- k)" by simp
  with assms(1) have x: "0 < x" by linarith
  then have fr: "float_round x = 2 powi qe * of_int (round_half_even (x / 2 powi qe))"
    by (simp add: float_round_def qe_def Let_def)
  from assms(1) ilog2_bounds(2) [OF x] have "(2::rat) powi (- k) < 2 powi (ilog2 x + 1)" by linarith
  then have il: "- k \<le> ilog2 x" by (simp add: powi2_less)
  show ?thesis
  proof (cases "qe \<le> - k")
    case True
    have "(of_int (2 ^ nat (- k - qe)) :: rat) = 2 powi (- k - qe)"
      using True by (simp add: powi2_nat)
    also have "\<dots> = 2 powi (- k) / 2 powi qe" by (simp add: powi2_diff)
    also have "\<dots> \<le> x / 2 powi qe" using assms(1) by (simp add: divide_right_mono)
    finally have "2 ^ nat (- k - qe) \<le> round_half_even (x / 2 powi qe)"
      by (rule round_half_even_lower)
    then have "(of_int (2 ^ nat (- k - qe)) :: rat) \<le> of_int (round_half_even (x / 2 powi qe))"
      by (simp only: of_int_le_iff)
    then have "2 powi qe * (2 powi (- k - qe) :: rat) \<le> float_round x"
      using True by (simp add: fr powi2_nat)
    then show ?thesis by (simp add: powi2_add [symmetric])
  next
    case False
    have "qe \<le> ilog2 x" using il assms(2) by (simp add: qe_def)
    then have "(of_int 1 :: rat) \<le> 2 powi (ilog2 x - qe)"
      using powi2_le [of 0 "ilog2 x - qe"] by simp
    also have "\<dots> = 2 powi (ilog2 x) / 2 powi qe" by (simp add: powi2_diff)
    also have "\<dots> \<le> x / 2 powi qe" using ilog2_bounds(1) [OF x] by (simp add: divide_right_mono)
    finally have "1 \<le> round_half_even (x / 2 powi qe)" by (rule round_half_even_lower)
    then have "(1 :: rat) \<le> of_int (round_half_even (x / 2 powi qe))" by simp
    then have "2 powi qe * 1 \<le> float_round x" unfolding fr by (intro mult_left_mono) simp_all
    moreover have "(2::rat) powi (- k) \<le> 2 powi qe" using False by (simp add: powi2_le)
    ultimately show ?thesis by simp
  qed
qed

text \<open>
  The rounded product on mantissa and exponent: \<open>float_mul_dyadic\<close> computes
  \<open>py_float_mul\<close>, and a product whose mantissa has at most 53 bits is exact.
\<close>

lemma round_half_even_shift:
  "round_half_even (of_int t / of_int (2 ^ s)) = round_shift t s"
proof -
  let ?r = "(of_int t :: rat) / of_int (2 ^ s)"
  have p: "(0::rat) < of_int (2 ^ s)" by simp
  have f: "\<lfloor>?r\<rfloor> = t div 2 ^ s" by (rule floor_divide_of_int_eq)
  have "of_int t = (of_int (t div 2 ^ s * 2 ^ s + t mod 2 ^ s) :: rat)"
    by (simp only: div_mult_mod_eq)
  also have "\<dots> = of_int (t div 2 ^ s) * of_int (2 ^ s) + of_int (t mod 2 ^ s)"
    by (simp only: of_int_add of_int_mult)
  finally have "?r = of_int (t div 2 ^ s) + of_int (t mod 2 ^ s) / of_int (2 ^ s)"
    using p by (simp add: field_simps)
  then have d: "?r - of_int (t div 2 ^ s) = of_int (t mod 2 ^ s) / of_int (2 ^ s)"
    by simp
  have lt: "(of_int (t mod 2 ^ s) / of_int (2 ^ s) < (1::rat) / 2) = (2 * (t mod 2 ^ s) < 2 ^ s)"
  proof -
    have "(of_int (t mod 2 ^ s) / of_int (2 ^ s) < (1::rat) / 2)
            = ((of_int (2 * (t mod 2 ^ s)) :: rat) < of_int (2 ^ s))"
      using p by (simp add: field_simps)
    also have "\<dots> = (2 * (t mod 2 ^ s) < 2 ^ s)" by (simp only: of_int_less_iff)
    finally show ?thesis .
  qed
  have eq: "(of_int (t mod 2 ^ s) / of_int (2 ^ s) = (1::rat) / 2) = (2 * (t mod 2 ^ s) = 2 ^ s)"
  proof -
    have "(of_int (t mod 2 ^ s) / of_int (2 ^ s) = (1::rat) / 2)
            = ((of_int (2 * (t mod 2 ^ s)) :: rat) = of_int (2 ^ s))"
      using p by (auto simp add: field_simps)
    also have "\<dots> = (2 * (t mod 2 ^ s) = 2 ^ s)" by (simp only: of_int_eq_iff)
    finally show ?thesis .
  qed
  show ?thesis
    unfolding round_half_even_def round_shift_def Let_def f d lt eq ..
qed

lemma float_round_dyadic:
  fixes t k :: int
  assumes t: "0 < t"
  defines "s \<equiv> max (bitlen t - 53) (k - 1074)"
  shows "float_round (of_int t * 2 powi (- k))
           = 2 powi (s - k) * of_int (round_half_even (of_int t * 2 powi (- s)))"
proof -
  let ?x = "(of_int t :: rat) * 2 powi (- k)"
  have x: "0 < ?x" using t by simp
  have "(2::rat) powi (bitlen t - 1 - k) = 2 powi (bitlen t - 1) * 2 powi (- k)"
    using powi2_add [of "bitlen t - 1" "- k"] by simp
  moreover have "(2::rat) powi (bitlen t - 1 - k + 1) = 2 powi (bitlen t) * 2 powi (- k)"
    using powi2_add [of "bitlen t" "- k"] by simp
  ultimately have "2 powi (bitlen t - 1 - k) \<le> ?x" "?x < 2 powi (bitlen t - 1 - k + 1)"
    using bitlen_powi [OF t] by simp_all
  then have il: "ilog2 ?x = bitlen t - 1 - k" by (rule ilog2_unique)
  have qe: "max (ilog2 ?x - 52) (- 1074) = s - k" by (simp add: il s_def)
  have "(2::rat) powi (- k) = 2 powi (s - k) * 2 powi (- s)"
    using powi2_add [of "s - k" "- s"] by simp
  then have "?x / 2 powi (s - k) = of_int t * 2 powi (- s)"
    by simp
  moreover have "?x \<noteq> 0" "\<bar>?x\<bar> = ?x" "sgn ?x = 1" using t by simp_all
  ultimately show ?thesis
    unfolding float_round_def Let_def by (simp only: qe if_False mult_1)
qed

lemma float_mul_dyadic:
  assumes "0 \<le> fst a" "0 \<le> fst b"
  shows "py_float_mul (dyadic a) (dyadic b) = dyadic (float_mul_dyadic a b)"
    and "0 \<le> fst (float_mul_dyadic a b)"
proof -
  define t where "t = fst a * fst b"
  define k where "k = snd a + snd b"
  define s where "s = max (bitlen t - 53) (k - 1074)"
  have t0: "0 \<le> t" using assms by (simp add: t_def)
  have "(2::rat) powi (- k) = 2 powi (- snd a) * 2 powi (- snd b)"
    using powi2_add [of "- snd a" "- snd b"] by (simp add: k_def)
  then have prod: "dyadic a * dyadic b = of_int t * 2 powi (- k)"
    by (simp add: dyadic_def t_def)
  have fm: "float_mul_dyadic a b = (if s \<le> 0 then (t, k) else (round_shift t (nat s), k - s))"
    by (simp add: float_mul_dyadic_def Let_def t_def k_def s_def)
  have rs: "0 \<le> round_shift t n" for n
    using t0 by (auto simp add: round_shift_def Let_def pos_imp_zdiv_nonneg_iff)
  show "0 \<le> fst (float_mul_dyadic a b)" using t0 rs by (simp add: fm)
  show "py_float_mul (dyadic a) (dyadic b) = dyadic (float_mul_dyadic a b)"
  proof (cases "t = 0")
    case True
    then have "round_shift t n = 0" for n by (simp add: round_shift_def)
    moreover have "py_float_mul (dyadic a) (dyadic b) = float_round (of_int t * 2 powi (- k))"
      by (simp only: py_float_mul_def prod)
    ultimately show ?thesis using True by (simp add: fm dyadic_def float_round_def)
  next
    case False
    with t0 have t: "0 < t" by simp
    note fr = float_round_dyadic [OF t, of k, folded s_def]
    show ?thesis
    proof (cases "s \<le> 0")
      case True
      then have "(2::rat) powi (- s) = of_int (2 ^ nat (- s))" by (simp add: powi2_nat)
      then have "round_half_even (of_int t * 2 powi (- s)) = t * 2 ^ nat (- s)"
        by (simp only: of_int_mult [symmetric] round_half_even_of_int)
      then have "float_round (of_int t * 2 powi (- k)) = 2 powi (s - k) * of_int (t * 2 ^ nat (- s))"
        by (simp only: fr)
      also have "\<dots> = 2 powi (s - k) * (of_int t * 2 powi (- s))"
        using True by (simp add: powi2_nat)
      also have "\<dots> = of_int t * 2 powi (- k)"
        using powi2_add [of "s - k" "- s"] by simp
      finally have "py_float_mul (dyadic a) (dyadic b) = of_int t * 2 powi (- k)"
        by (simp only: py_float_mul_def prod)
      then show ?thesis using True by (simp add: fm dyadic_def)
    next
      case False
      then have "(2::rat) powi (- s) = 1 / of_int (2 ^ nat s)"
        by (simp add: power_int_minus powi2_nat divide_inverse)
      then have "round_half_even (of_int t * 2 powi (- s)) = round_shift t (nat s)"
        by (simp add: round_half_even_shift [symmetric])
      then have "py_float_mul (dyadic a) (dyadic b)
                   = 2 powi (s - k) * of_int (round_shift t (nat s))"
        by (simp only: py_float_mul_def prod fr)
      then show ?thesis using False by (simp add: fm dyadic_def)
    qed
  qed
qed

lemma float_mul_small:
  assumes "0 \<le> a" "0 \<le> c" "a * c < 2 ^ 53" "e + b \<le> 1074"
  shows "py_float_mul (dyadic (a, e)) (dyadic (c, b)) = dyadic (a * c, e + b)"
proof -
  have "bitlen (a * c) \<le> 53" using assms(3) by (simp add: bitlen_le_iff_power)
  then have "float_mul_dyadic (a, e) (c, b) = (a * c, e + b)"
    using assms(4) by (simp add: float_mul_dyadic_def)
  with float_mul_dyadic(1) [of "(a, e)" "(c, b)"] assms(1,2) show ?thesis by simp
qed

lemma true_div_dyadic:
  assumes "0 \<le> c" "c < 2 ^ 53"
  shows "py_true_div c 16 = Inr (dyadic (c, 4))"
proof -
  have "(of_int c :: rat) / of_int 16 = dyadic (c, 4) * dyadic (1, 0)"
    by (simp add: dyadic_def power_int_minus)
  then have "float_round (of_int c / of_int 16) = py_float_mul (dyadic (c, 4)) (dyadic (1, 0))"
    by (simp only: py_float_mul_def)
  also have "\<dots> = dyadic (c, 4)" using float_mul_small [of c 1 4 0] assms by simp
  finally show ?thesis by (simp add: py_true_div_def)
qed

section \<open>Facts about the cipher operations\<close>

lemma init_fields:
  assumes "SP_Network_init ks subst perm = Inr n"
  shows "keys n = ks" "substitution n = subst" "permutation n = perm"
        "rounds n = int (length ks) - 1" "SP_Network.data_size n = int (length subst)"
        "length perm = length subst"
        "inv_substitution n = fold (\<lambda>(k, v) d. AList.update v k d) subst []"
  using assms by (auto simp add: SP_Network_init_def split: if_splits)

lemma upto_four_more:
  assumes "0 \<le> a"
  shows "[0..a + 4 - 1] = [0..a - 1] @ [a, a + 1, a + 2, a + 3]"
proof -
  have "[0..a + 3] = [0..a - 1] @ [a..a + 3]"
    using assms by (intro upto_split1) simp_all
  moreover have "[a..a + 3] = [a, a + 1, a + 2, a + 3]"
    by (simp add: upto.simps)
  moreover have "a + 4 - 1 = a + 3" by simp
  ultimately show ?thesis by (simp only:)
qed

lemma py_range_step4_mult:
  "py_range_step4 (4 * int m) = map (\<lambda>j. 4 * int j) [0..<m]"
proof (induction m)
  case 0
  then show ?case by (simp add: py_range_step4_def)
next
  case (Suc m)
  have "4 * int (Suc m) - 1 = 4 * int m + 4 - 1" by simp
  then have "py_range_step4 (4 * int (Suc m))
               = filter (\<lambda>i. i mod 4 = 0) ([0..4 * int m - 1] @ [4 * int m, 4 * int m + 1, 4 * int m + 2, 4 * int m + 3])"
    unfolding py_range_step4_def by (simp only: upto_four_more [of "4 * int m"] of_nat_0_le_iff mult_nonneg_nonneg zero_le_numeral)
  also have "\<dots> = py_range_step4 (4 * int m) @ [4 * int m]"
    unfolding py_range_step4_def filter_append by (simp; presburger)
  finally show ?case using Suc by simp
qed

lemma substitute_fold:
  assumes "SP_Network.data_size n = 4 * int m"
  shows "substitute n x invert =
           Inr (fold (\<lambda>j out. push_bit 4 out OR sbox n (drop_bit (4 * (m - 1 - j)) x AND 15) invert)
                  [0..<m] 0)"
proof -
  have sh: "nat (4 * int m - 4 * int j - 4) = 4 * (m - 1 - j)" if "j < m" for j
    using that by linarith
  show ?thesis
    unfolding substitute_def assms py_range_step4_mult for_each_map
    by (rule for_each_fold) (simp add: py_rshift_def sh)
qed

lemma drop_push4: "drop_bit 4 (push_bit 4 acc) = (acc :: int)"
  by (rule bit_eqI) (simp add: bit_simps)

lemma mask4: "(15 :: int) = mask 4"
  by (simp add: mask_eq_exp_minus_1)

lemma push4_and15: "push_bit 4 acc AND 15 = (0 :: int)"
  unfolding mask4 by (rule bit_eqI) (simp add: bit_simps)

lemma nibble_mask:
  fixes g :: int
  assumes "0 \<le> g" "g < 16"
  shows "g AND 15 = g"
proof -
  have "g AND 15 = take_bit 4 g"
    by (simp add: take_bit_eq_mask mask_eq_exp_minus_1)
  also have "\<dots> = g"
    using assms by (simp add: take_bit_int_eq_self)
  finally show ?thesis .
qed

lemma concat_bound:
  fixes acc :: int
  assumes "0 \<le> acc" "acc < 2 ^ a" "\<forall>j\<in>set js. 0 \<le> v j \<and> v j < 16"
  shows "0 \<le> fold (\<lambda>j out. push_bit 4 out OR v j) js acc \<and>
         fold (\<lambda>j out. push_bit 4 out OR v j) js acc < 2 ^ (a + 4 * length js)"
  using assms
proof (induction js arbitrary: acc a)
  case Nil
  then show ?case by simp
next
  case (Cons j js)
  let ?acc = "push_bit 4 acc OR v j"
  have v: "0 \<le> v j" "v j < 16" using Cons.prems by simp_all
  have "v j < 2 ^ (a + 4)"
  proof -
    have "(16 :: int) \<le> 2 ^ (a + 4)" by (simp add: power_add)
    with v show ?thesis by linarith
  qed
  moreover have "push_bit 4 acc < 2 ^ (a + 4)"
    using Cons.prems(2) by (simp add: push_bit_eq_mult power_add)
  ultimately have "?acc < 2 ^ (a + 4)"
    using Cons.prems(1) by (intro OR_upper) simp_all
  moreover have "0 \<le> ?acc" using Cons.prems(1) v by simp
  ultimately have "0 \<le> fold (\<lambda>j out. push_bit 4 out OR v j) js ?acc \<and>
         fold (\<lambda>j out. push_bit 4 out OR v j) js ?acc < 2 ^ ((a + 4) + 4 * length js)"
    using Cons.prems(3) by (intro Cons.IH) simp_all
  moreover have "a + 4 + 4 * length js = a + 4 * length (j # js)" by simp
  ultimately show ?case by (simp only: fold_simps)
qed

lemma concat_high:
  fixes acc :: int
  assumes "\<forall>j\<in>set js. 0 \<le> v j \<and> v j < 16"
  shows "drop_bit (4 * length js) (fold (\<lambda>j out. push_bit 4 out OR v j) js acc) = acc"
  using assms
proof (induction js arbitrary: acc)
  case Nil
  then show ?case by simp
next
  case (Cons j js)
  have v: "0 \<le> v j" "v j < 16" using Cons.prems by simp_all
  then have d: "drop_bit 4 (v j) = 0"
    by (simp add: drop_bit_eq_div)
  have "drop_bit (4 * length (j # js)) (fold (\<lambda>j out. push_bit 4 out OR v j) (j # js) acc)
          = drop_bit 4 (drop_bit (4 * length js)
              (fold (\<lambda>j out. push_bit 4 out OR v j) js (push_bit 4 acc OR v j)))"
    by (simp add: add.commute)
  also have "\<dots> = drop_bit 4 (push_bit 4 acc OR v j)"
    using Cons.prems by (simp add: Cons.IH)
  also have "\<dots> = acc"
    by (simp add: d drop_push4)
  finally show ?case .
qed

lemma concat_nibble:
  fixes acc :: int
  assumes "\<forall>j\<in>set js. 0 \<le> v j \<and> v j < 16" "i < length js"
  shows "drop_bit (4 * (length js - 1 - i)) (fold (\<lambda>j out. push_bit 4 out OR v j) js acc) AND 15
           = v (js ! i)"
  using assms
proof (induction js arbitrary: acc i)
  case Nil
  then show ?case by simp
next
  case (Cons j js)
  have v: "0 \<le> v j" "v j < 16" using Cons.prems by simp_all
  show ?case
  proof (cases i)
    case 0
    have "v j AND 15 = v j"
      using v by (simp add: nibble_mask)
    moreover have "drop_bit (4 * length js) (fold (\<lambda>j out. push_bit 4 out OR v j) js (push_bit 4 acc OR v j))
            = push_bit 4 acc OR v j"
      using Cons.prems by (intro concat_high) simp
    moreover have "push_bit 4 acc AND 15 = (0::int)"
      by (rule push4_and15)
    ultimately show ?thesis using 0 by (simp add: bit.conj_disj_distrib2)
  next
    case (Suc i')
    with Cons.prems have "i' < length js" by simp
    with Cons.prems have "drop_bit (4 * (length js - 1 - i'))
        (fold (\<lambda>j out. push_bit 4 out OR v j) js (push_bit 4 acc OR v j)) AND 15 = v (js ! i')"
      by (intro Cons.IH) simp_all
    with Suc show ?thesis by simp
  qed
qed

text \<open>The permutation loop.\<close>

lemma permute_fold:
  assumes "SP_Network.data_size n = N"
      and "\<forall>i\<in>{1..N}. map_of (permutation n) i = Some (\<pi> i) \<and> \<pi> i \<le> N"
  shows "permute n x =
           Inr (fold (\<lambda>i out. out OR push_bit (nat (N - i)) (drop_bit (nat (N - \<pi> i)) x AND 1))
                  [1..N] 0)"
proof -
  have "[1..N + 1 - 1] = [1..N]" by simp
  then show ?thesis
    unfolding permute_def assms(1) py_range_def
    by (simp only:, intro for_each_fold)
       (use assms(2) in \<open>force simp add: dict_getitem_def py_rshift_def py_lshift_def\<close>)
qed

lemma placed_bit_bound:
  fixes b :: int
  assumes "k < N"
  shows "0 \<le> push_bit k (b AND 1) \<and> push_bit k (b AND 1) < 2 ^ N"
proof -
  have "b AND 1 = b mod 2" by (rule and_one_eq)
  then have "0 \<le> b AND 1" "b AND 1 \<le> 1" by simp_all
  then have "push_bit k (b AND 1) \<le> 2 ^ k"
    by (simp add: push_bit_eq_mult)
  moreover have "(2 :: int) ^ k < 2 ^ N" using assms by simp
  ultimately show ?thesis using \<open>0 \<le> b AND 1\<close> by simp
qed

lemma or_fold_bound:
  fixes acc :: int
  assumes "0 \<le> acc" "acc < 2 ^ N" "\<forall>i\<in>set is. 0 \<le> t i \<and> t i < 2 ^ N"
  shows "0 \<le> fold (\<lambda>i out. out OR t i) is acc \<and> fold (\<lambda>i out. out OR t i) is acc < 2 ^ N"
  using assms
proof (induction "is" arbitrary: acc)
  case Nil
  then show ?case by simp
next
  case (Cons i "is")
  have "0 \<le> acc OR t i" "acc OR t i < 2 ^ N"
    using Cons.prems by (simp_all add: OR_upper)
  then show ?case using Cons.prems(3) by (simp add: Cons.IH)
qed

lemma permute_range:
  assumes "SP_Network.data_size n = N"
      and "\<forall>i\<in>{1..N}. map_of (permutation n) i = Some (\<pi> i) \<and> \<pi> i \<le> N"
  shows "\<exists>y. permute n x = Inr y \<and> 0 \<le> y \<and> y < 2 ^ nat N"
proof -
  have "\<forall>i\<in>set [1..N]. 0 \<le> push_bit (nat (N - i)) (drop_bit (nat (N - \<pi> i)) x AND 1) \<and>
          push_bit (nat (N - i)) (drop_bit (nat (N - \<pi> i)) x AND 1) < 2 ^ nat N"
    by (auto intro!: placed_bit_bound [THEN conjunct1] placed_bit_bound [THEN conjunct2])
  then have "0 \<le> fold (\<lambda>i out. out OR push_bit (nat (N - i)) (drop_bit (nat (N - \<pi> i)) x AND 1)) [1..N] 0
      \<and> fold (\<lambda>i out. out OR push_bit (nat (N - i)) (drop_bit (nat (N - \<pi> i)) x AND 1)) [1..N] 0 < 2 ^ nat N"
    by (intro or_fold_bound) simp_all
  then show ?thesis by (simp add: permute_fold [OF assms])
qed

text \<open>Key mixing.\<close>

lemma list_getitem_valid:
  assumes "- int (length xs) \<le> i" "i < int (length xs)"
  shows "\<exists>k\<in>set xs. list_getitem xs i = Inr k"
proof (cases "0 \<le> i")
  case True
  with assms show ?thesis by (simp add: list_getitem_def)
next
  case False
  with assms have "nat (int (length xs) + i) < length xs" by linarith
  with False assms show ?thesis by (simp add: list_getitem_def)
qed

lemma keymix_range:
  assumes "- int (length (keys n)) \<le> r" "r < int (length (keys n))"
      and "\<forall>k\<in>set (keys n). 0 \<le> k \<and> k < 2 ^ N"
      and "0 \<le> x" "x < 2 ^ N"
  shows "\<exists>y. keymix n r x = Inr y \<and> 0 \<le> y \<and> y < 2 ^ N"
proof -
  from list_getitem_valid [OF assms(1,2)]
  obtain k where k: "k \<in> set (keys n)" "list_getitem (keys n) r = Inr k" by blast
  with assms(3) have "0 \<le> k" "k < 2 ^ N" by auto
  with assms(4,5) have "0 \<le> k XOR x" "k XOR x < 2 ^ N"
    by (simp_all add: XOR_upper)
  with k show ?thesis by (simp add: keymix_def)
qed

lemma keymix_twice:
  assumes "keymix n r x = Inr y"
  shows "keymix n r y = Inr x"
proof -
  from assms obtain k where "list_getitem (keys n) r = Inr k" "y = k XOR x"
    by (auto simp add: keymix_def py_bind_def split: sum.splits)
  then show ?thesis by (simp add: keymix_def flip: xor.assoc)
qed

text \<open>The inverse substitution table.\<close>

lemma inv_table_lookup:
  "map_of (fold (\<lambda>(k, v) d. AList.update v k d) kvs acc) w = Some a \<Longrightarrow>
     map_of acc w = Some a \<or> (a, w) \<in> set kvs"
proof (induction kvs arbitrary: acc)
  case Nil
  then show ?case by simp
next
  case (Cons kv kvs)
  obtain k v where kv: "kv = (k, v)" by (cases kv)
  from Cons.prems have "map_of (fold (\<lambda>(k, v) d. AList.update v k d) kvs (AList.update v k acc)) w = Some a"
    by (simp add: kv)
  then have "map_of (AList.update v k acc) w = Some a \<or> (a, w) \<in> set kvs"
    by (rule Cons.IH)
  then show ?case by (auto simp add: kv update_conv' split: if_splits)
qed

lemma sbox_nibble:
  assumes "\<forall>(a, v)\<in>set (substitution n). 0 \<le> a \<and> a < 16 \<and> 0 \<le> v \<and> v < 16"
      and "inv_substitution n = fold (\<lambda>(k, v) d. AList.update v k d) (substitution n) []"
  shows "0 \<le> sbox n g invert \<and> sbox n g invert < 16"
proof (cases invert)
  case False
  show ?thesis
  proof (cases "map_of (substitution n) g")
    case None
    with False show ?thesis by (simp add: sbox_def dict_get_def)
  next
    case (Some v)
    then have "(g, v) \<in> set (substitution n)" by (rule map_of_SomeD)
    with assms(1) have "0 \<le> v \<and> v < 16" by auto
    with False Some show ?thesis by (simp add: sbox_def dict_get_def)
  qed
next
  case True
  show ?thesis
  proof (cases "map_of (inv_substitution n) g")
    case None
    with True show ?thesis by (simp add: sbox_def dict_get_def)
  next
    case (Some a)
    then have "(a, g) \<in> set (substitution n)"
      unfolding assms(2) by (auto dest: inv_table_lookup)
    with assms(1) have "0 \<le> a \<and> a < 16" by auto
    with True Some show ?thesis by (simp add: sbox_def dict_get_def)
  qed
qed

lemma substitute_range:
  assumes "SP_Network.data_size n = 4 * int m"
      and "\<forall>(a, v)\<in>set (substitution n). 0 \<le> a \<and> a < 16 \<and> 0 \<le> v \<and> v < 16"
      and "inv_substitution n = fold (\<lambda>(k, v) d. AList.update v k d) (substitution n) []"
  shows "\<exists>y. substitute n x invert = Inr y \<and> 0 \<le> y \<and> y < 2 ^ (4 * m)"
proof -
  let ?v = "\<lambda>j. sbox n (drop_bit (4 * (m - 1 - j)) x AND 15) invert"
  have "0 \<le> fold (\<lambda>j out. push_bit 4 out OR ?v j) [0..<m] 0 \<and>
        fold (\<lambda>j out. push_bit 4 out OR ?v j) [0..<m] 0 < 2 ^ (0 + 4 * length [0..<m])"
    by (rule concat_bound) (simp_all add: sbox_nibble [OF assms(2,3)])
  then show ?thesis by (simp add: substitute_fold [OF assms(1)])
qed

lemma bit_nibble:
  fixes a :: int
  assumes "r < 4"
  shows "bit (drop_bit (4 * i) a AND 15) r = bit a (4 * i + r)"
  unfolding mask4 using assms by (simp add: bit_simps)

lemma nibbles_eq:
  fixes a b :: int
  assumes a: "0 \<le> a" "a < 2 ^ (4 * m)" and b: "0 \<le> b" "b < 2 ^ (4 * m)"
      and nib: "\<forall>i<m. drop_bit (4 * i) a AND 15 = drop_bit (4 * i) b AND 15"
  shows "a = b"
proof (rule bit_eqI)
  fix q
  have ta: "take_bit (4 * m) a = a" and tb: "take_bit (4 * m) b = b"
    using a b by (simp_all add: take_bit_int_eq_self)
  show "bit a q = bit b q"
  proof (cases "q < 4 * m")
    case True
    then have i: "q div 4 < m" and r: "q mod 4 < 4" by auto
    have q: "4 * (q div 4) + q mod 4 = q" by simp
    from nib i have "bit (drop_bit (4 * (q div 4)) a AND 15) (q mod 4)
                     = bit (drop_bit (4 * (q div 4)) b AND 15) (q mod 4)"
      by simp
    then show ?thesis
      unfolding bit_nibble [OF r] q .
  next
    case False
    have "bit (take_bit (4 * m) a) q = bit (take_bit (4 * m) b) q"
      using False by (simp add: bit_take_bit_iff)
    then show ?thesis by (simp only: ta tb)
  qed
qed

lemma inv_table_keep:
  "w \<notin> snd ` set kvs \<Longrightarrow>
     map_of (fold (\<lambda>(k, v) d. AList.update v k d) kvs acc) w = map_of acc w"
  by (induction kvs arbitrary: acc) (auto simp add: update_conv')

lemma inv_table_correct:
  "distinct (map snd kvs) \<Longrightarrow> (k, v) \<in> set kvs \<Longrightarrow>
     map_of (fold (\<lambda>(k, v) d. AList.update v k d) kvs acc) v = Some k"
proof (induction kvs arbitrary: acc)
  case Nil
  then show ?case by simp
next
  case (Cons kv kvs)
  obtain k0 v0 where kv: "kv = (k0, v0)" by (cases kv)
  show ?case
  proof (cases "(k, v) = (k0, v0)")
    case True
    with Cons.prems kv have "v \<notin> snd ` set kvs" by auto
    then show ?thesis using True kv by (simp add: inv_table_keep update_conv')
  next
    case False
    with Cons.prems kv have "(k, v) \<in> set kvs" "distinct (map snd kvs)" by auto
    then show ?thesis by (simp add: kv Cons.IH)
  qed
qed

lemma sbox_inverse:
  assumes tab: "substitution n = subst"
        "inv_substitution n = fold (\<lambda>(k, v) d. AList.update v k d) subst []"
      and len: "length subst = 16"
      and dom: "fst ` set subst = {0..15}" and ran: "snd ` set subst = {0..15}"
      and g: "0 \<le> g" "g < 16"
  shows "sbox n (sbox n g False) True = g"
proof -
  have "card (set (map snd subst)) = length (map snd subst)"
    using ran len by simp
  then have d: "distinct (map snd subst)" by (rule card_distinct)
  from g dom have "g \<in> fst ` set subst" by simp
  then obtain v where v: "map_of subst g = Some v"
    by (metis map_of_eq_None_iff not_Some_eq)
  then have "(g, v) \<in> set subst" by (rule map_of_SomeD)
  with d have "map_of (fold (\<lambda>(k, v) d. AList.update v k d) subst []) v = Some g"
    by (rule inv_table_correct)
  with v show ?thesis by (simp add: sbox_def dict_get_def tab)
qed

lemma and_15_range:
  fixes a :: int
  shows "0 \<le> a AND 15 \<and> a AND 15 < 16"
proof -
  have "a AND 15 = take_bit 4 a"
    by (simp add: take_bit_eq_mask mask_eq_exp_minus_1)
  moreover have "0 \<le> take_bit 4 a" "take_bit 4 a < 2 ^ 4"
    by (rule take_bit_nonnegative, rule take_bit_int_less_exp)
  ultimately show ?thesis by simp
qed

lemma substitute_nibble:
  assumes ds: "SP_Network.data_size n = 4 * int m"
      and rng: "\<forall>g. 0 \<le> sbox n g invert \<and> sbox n g invert < 16"
      and i: "i < m"
  shows "\<exists>y. substitute n x invert = Inr y \<and> 0 \<le> y \<and> y < 2 ^ (4 * m) \<and>
             drop_bit (4 * i) y AND 15 = sbox n (drop_bit (4 * i) x AND 15) invert"
proof -
  let ?v = "\<lambda>j. sbox n (drop_bit (4 * (m - 1 - j)) x AND 15) invert"
  let ?y = "fold (\<lambda>j out. push_bit 4 out OR ?v j) [0..<m] 0"
  have v: "\<forall>j\<in>set [0..<m]. 0 \<le> ?v j \<and> ?v j < 16" using rng by simp
  have "0 \<le> ?y \<and> ?y < 2 ^ (0 + 4 * length [0..<m])"
    by (rule concat_bound) (simp_all add: rng)
  moreover have "drop_bit (4 * (length [0..<m] - 1 - (m - 1 - i))) ?y AND 15 = ?v ([0..<m] ! (m - 1 - i))"
    using v by (rule concat_nibble) (use i in simp)
  moreover have "m - 1 - (m - 1 - i) = i" using i by simp
  ultimately show ?thesis
    using i by (simp add: substitute_fold [OF ds])
qed

lemma substitute_inverse:
  assumes ds: "SP_Network.data_size n = 4 * int m"
      and rng: "\<forall>g invert. 0 \<le> sbox n g invert \<and> sbox n g invert < 16"
      and inv: "\<forall>g. 0 \<le> g \<and> g < 16 \<longrightarrow> sbox n (sbox n g False) True = g"
      and x: "0 \<le> x" "x < 2 ^ (4 * m)"
  shows "\<exists>y. substitute n x False = Inr y \<and> 0 \<le> y \<and> y < 2 ^ (4 * m) \<and>
             substitute n y True = Inr x"
proof -
  obtain y where y: "substitute n x False = Inr y"
    by (simp add: substitute_fold [OF ds])
  obtain z where z: "substitute n y True = Inr z"
    by (simp add: substitute_fold [OF ds])
  have ny: "0 \<le> y \<and> y < 2 ^ (4 * m) \<and>
            drop_bit (4 * i) y AND 15 = sbox n (drop_bit (4 * i) x AND 15) False" if "i < m" for i
    using substitute_nibble [OF ds _ that, of False x] rng y by auto
  have nz: "0 \<le> z \<and> z < 2 ^ (4 * m) \<and>
            drop_bit (4 * i) z AND 15 = sbox n (drop_bit (4 * i) y AND 15) True" if "i < m" for i
    using substitute_nibble [OF ds _ that, of True y] rng z by auto
  show ?thesis
  proof (cases m)
    case 0
    with x have "x = 0" by simp
    moreover from 0 have "substitute n u invert = Inr 0" for u invert
      by (simp add: substitute_fold [OF ds])
    ultimately show ?thesis by simp
  next
    case (Suc m')
    then have "0 < m" by simp
    have "z = x"
    proof (rule nibbles_eq [where m = m])
      show "0 \<le> z" "z < 2 ^ (4 * m)" using nz [OF \<open>0 < m\<close>] by simp_all
      show "0 \<le> x" "x < 2 ^ (4 * m)" by (rule x)+
      show "\<forall>i<m. drop_bit (4 * i) z AND 15 = drop_bit (4 * i) x AND 15"
      proof (intro allI impI)
        fix i assume i: "i < m"
        have "drop_bit (4 * i) z AND 15
                = sbox n (sbox n (drop_bit (4 * i) x AND 15) False) True"
          using ny [OF i] nz [OF i] by simp
        also have "\<dots> = drop_bit (4 * i) x AND 15"
          using inv and_15_range [of "drop_bit (4 * i) x"] by blast
        finally show "drop_bit (4 * i) z AND 15 = drop_bit (4 * i) x AND 15" .
      qed
    qed
    with y z ny [OF \<open>0 < m\<close>] show ?thesis by simp
  qed
qed

lemma permute_involution:
  assumes ds: "SP_Network.data_size n = N"
      and perm: "\<forall>i\<in>{1..N}. map_of (permutation n) i = Some (\<pi> i) \<and>
                   1 \<le> \<pi> i \<and> \<pi> i \<le> N \<and> \<pi> (\<pi> i) = i"
      and x: "0 \<le> x" "x < 2 ^ nat N"
  shows "\<exists>y. permute n x = Inr y \<and> 0 \<le> y \<and> y < 2 ^ nat N \<and> permute n y = Inr x"
proof -
  let ?F = "\<lambda>x. fold (\<lambda>i out. out OR push_bit (nat (N - i)) (drop_bit (nat (N - \<pi> i)) x AND 1))
                  [1..N] (0 :: int)"
  have p: "\<forall>i\<in>{1..N}. map_of (permutation n) i = Some (\<pi> i) \<and> \<pi> i \<le> N"
    using perm by simp
  have F: "permute n u = Inr (?F u)" for u
    by (rule permute_fold [OF ds p])
  have bitF: "bit (?F u) q = (\<exists>i\<in>{1..N}. q = nat (N - i) \<and> bit u (nat (N - \<pi> i)))" for u q
    unfolding bit_fold_or by simp
  have tx: "take_bit (nat N) x = x"
    using x by (simp add: take_bit_int_eq_self)
  have "?F (?F x) = x"
  proof (rule bit_eqI)
    fix q
    show "bit (?F (?F x)) q = bit x q"
    proof
      assume "bit (?F (?F x)) q"
      then obtain i where i: "i \<in> {1..N}" "q = nat (N - i)"
        and "bit (?F x) (nat (N - \<pi> i))"
        unfolding bitF [of "?F x"] by blast
      then obtain j where j: "j \<in> {1..N}" "nat (N - \<pi> i) = nat (N - j)"
        and b: "bit x (nat (N - \<pi> j))"
        unfolding bitF [of x] by blast
      from perm i have "1 \<le> \<pi> i" "\<pi> i \<le> N" "\<pi> (\<pi> i) = i" by auto
      with j have "j = \<pi> i" by (simp add: nat_eq_iff)
      with b \<open>\<pi> (\<pi> i) = i\<close> i show "bit x q" by simp
    next
      assume b: "bit x q"
      have "bit (take_bit (nat N) x) q" using b by (simp only: tx)
      then have q: "q < nat N" by (simp add: bit_take_bit_iff)
      define i where "i = N - int q"
      have i: "i \<in> {1..N}" "q = nat (N - i)" using q by (auto simp add: i_def)
      with perm have pi: "\<pi> i \<in> {1..N}" "\<pi> (\<pi> i) = i" by auto
      have "bit (?F x) (nat (N - \<pi> i))"
        unfolding bitF [of x] using pi i b by (intro bexI [of _ "\<pi> i"]) simp_all
      then show "bit (?F (?F x)) q"
        unfolding bitF [of "?F x"] using i by (intro bexI [of _ i]) simp_all
    qed
  qed
  moreover from permute_range [OF ds p, of x] have "0 \<le> ?F x \<and> ?F x < 2 ^ nat N"
    by (simp add: F)
  ultimately show ?thesis by (simp add: F)
qed

section \<open>Facts about the maximum selection and the attack\<close>

lemma max_scan_snoc:
  "max_scan (kvs @ [(k, v)]) best =
     (if snd (max_scan kvs best) < v then (k, v) else max_scan kvs best)"
  by (induction kvs arbitrary: best) auto

lemma max_scan_mem: "max_scan kvs best \<in> set (best # kvs)"
proof (induction kvs arbitrary: best)
  case Nil
  then show ?case by simp
next
  case (Cons kv kvs)
  obtain k v where kv: "kv = (k, v)" by (cases kv)
  let ?b = "if snd best < v then (k, v) else best"
  have "max_scan kvs ?b \<in> set (?b # kvs)" by (rule Cons.IH)
  moreover have "set (?b # kvs) \<subseteq> set (best # kv # kvs)" by (auto simp add: kv)
  ultimately show ?case unfolding kv max_scan.simps by blast
qed

lemma py_max_key_snoc:
  assumes "d \<noteq> []" "py_max_key d = Inr b" "(b, w) \<in> set d" "\<forall>(k, v)\<in>set d. v = g k"
  shows "py_max_key (d @ [(k, g k)]) = Inr (if g b < g k then k else b)"
proof -
  from assms(1) obtain kv kvs where d: "d = kv # kvs" by (cases d) auto
  let ?m = "max_scan kvs kv"
  have "?m \<in> set d" unfolding d by (rule max_scan_mem)
  with assms(4) have "snd ?m = g (fst ?m)" by (cases ?m) auto
  moreover from assms(2) have "fst ?m = b" by (simp add: d py_max_key_def)
  ultimately show ?thesis
    by (simp add: d py_max_key_def max_scan_snoc)
qed

lemma update_new: "k \<notin> fst ` set al \<Longrightarrow> AList.update k v al = al @ [(k, v)]"
  by (induction al) auto

lemma update_same:
  "distinct (map fst al) \<Longrightarrow> (k, v) \<in> set al \<Longrightarrow> AList.update k v al = al"
  by (simp add: update_triv)

text \<open>
  The table \<open>subkey_counts\<close> after the candidates \<open>c i\<close>, \<open>i\<close> in \<open>is\<close>, have been stored with
  their counts \<open>g (c i)\<close>, and the key that \<open>max\<close> selects from it.
\<close>

lemma counts_table:
  fixes c :: "'i \<Rightarrow> 'k" and g :: "'k \<Rightarrow> int"
  defines "d \<equiv> \<lambda>is. fold (\<lambda>i sc. AList.update (c i) (g (c i)) sc) is []"
  shows "distinct (map fst (d is)) \<and> set (d is) = (\<lambda>i. (c i, g (c i))) ` set is"
proof (induction "is" rule: rev_induct)
  case Nil
  then show ?case by (simp add: d_def)
next
  case (snoc i "is")
  have step: "d (is @ [i]) = AList.update (c i) (g (c i)) (d is)"
    by (simp add: d_def)
  show ?case
  proof (cases "c i \<in> fst ` set (d is)")
    case True
    with snoc have "(c i, g (c i)) \<in> set (d is)" by auto
    with snoc have "d (is @ [i]) = d is" unfolding step by (intro update_same) simp_all
    with snoc \<open>(c i, g (c i)) \<in> set (d is)\<close> show ?thesis by auto
  next
    case False
    then have "d (is @ [i]) = d is @ [(c i, g (c i))]" unfolding step by (rule update_new)
    with snoc False show ?thesis by auto
  qed
qed

lemma counts_table_max:
  fixes c :: "'i \<Rightarrow> 'k" and g :: "'k \<Rightarrow> int"
  defines "d \<equiv> \<lambda>is. fold (\<lambda>i sc. AList.update (c i) (g (c i)) sc) is []"
  assumes "is \<noteq> []"
  shows "d is \<noteq> [] \<and>
         (\<exists>p<length is. py_max_key (d is) = Inr (c (is ! p)) \<and>
            (\<forall>q<length is. g (c (is ! q)) \<le> g (c (is ! p))) \<and>
            (\<forall>q<p. g (c (is ! q)) < g (c (is ! p))))"
  using assms(2)
proof (induction "is" rule: rev_induct)
  case Nil
  then show ?case by simp
next
  case (snoc i "is")
  have step: "d (is @ [i]) = AList.update (c i) (g (c i)) (d is)"
    by (simp add: d_def)
  have tab: "distinct (map fst (d is))" "set (d is) = (\<lambda>i. (c i, g (c i))) ` set is"
    using counts_table [of c g "is"] by (simp_all add: d_def)
  show ?case
  proof (cases "is = []")
    case True
    then have "d (is @ [i]) = [(c i, g (c i))]" by (simp add: d_def)
    with True show ?thesis by (simp add: py_max_key_def)
  next
    case False
    with snoc.IH obtain p where p: "p < length is" "py_max_key (d is) = Inr (c (is ! p))"
      "\<forall>q<length is. g (c (is ! q)) \<le> g (c (is ! p))"
      "\<forall>q<p. g (c (is ! q)) < g (c (is ! p))" and ne: "d is \<noteq> []"
      by blast
    have nth: "(is @ [i]) ! q = is ! q" if "q < length is" for q
      using that by (simp add: nth_append)
    show ?thesis
    proof (cases "c i \<in> fst ` set (d is)")
      case True
      with tab obtain j where j: "j \<in> set is" "c j = c i" by auto
      then obtain q where q: "q < length is" "is ! q = j" by (auto simp add: in_set_conv_nth)
      from True tab have "(c i, g (c i)) \<in> set (d is)" by auto
      with tab have same: "d (is @ [i]) = d is" unfolding step by (intro update_same)
      have "g (c i) \<le> g (c (is ! p))" using p(3) q j by metis
      then have "\<forall>q<length (is @ [i]). g (c ((is @ [i]) ! q)) \<le> g (c (is ! p))"
        using p(3) by (auto simp add: nth_append less_Suc_eq)
      with p ne show ?thesis
        unfolding same by (intro conjI exI [of _ p]) (simp_all add: nth_append)
    next
      case False
      then have app: "d (is @ [i]) = d is @ [(c i, g (c i))]" unfolding step by (rule update_new)
      from p(1) tab have "(c (is ! p), g (c (is ! p))) \<in> set (d is)" by auto
      with ne p(2) have mx: "py_max_key (d (is @ [i]))
          = Inr (if g (c (is ! p)) < g (c i) then c i else c (is ! p))"
        unfolding app by (rule py_max_key_snoc) (use tab in auto)
      show ?thesis
      proof (cases "g (c (is ! p)) < g (c i)")
        case True
        have "\<forall>q<length (is @ [i]). g (c ((is @ [i]) ! q)) \<le> g (c i)"
          using p(3) True by (fastforce simp add: nth_append less_Suc_eq)
        moreover have "\<forall>q<length is. g (c ((is @ [i]) ! q)) < g (c i)"
          using p(3) True by (fastforce simp add: nth_append)
        ultimately show ?thesis
          using mx True app by (intro conjI exI [of _ "length is"]) simp_all
      next
        case False
        then have "\<forall>q<length (is @ [i]). g (c ((is @ [i]) ! q)) \<le> g (c (is ! p))"
          using p(3) by (auto simp add: nth_append less_Suc_eq)
        with p mx False app show ?thesis
          by (intro conjI exI [of _ p]) (simp_all add: nth_append)
      qed
    qed
  qed
qed

lemma fold_update_distinct:
  "distinct ks \<Longrightarrow> fold (\<lambda>k sc. AList.update k (g k) sc) ks [] = map (\<lambda>k. (k, g k)) ks"
proof (induction ks rule: rev_induct)
  case Nil
  then show ?case by simp
next
  case (snoc k ks)
  then have "k \<notin> fst ` set (map (\<lambda>k. (k, g k)) ks)" by force
  then have "AList.update k (g k) (map (\<lambda>k. (k, g k)) ks) = map (\<lambda>k. (k, g k)) ks @ [(k, g k)]"
    by (rule update_new)
  with snoc show ?case by simp
qed

lemma active_labels:
  "set (fold (\<lambda>i acc. if b i then acc @ [4 - i] else acc) [0, 1, 2, 3 :: int] []) \<subseteq> {1, 2, 3, 4}"
  by auto

lemma py_range_0_4: "py_range 0 4 = [0, 1, 2, 3]"
  by (simp add: py_range_def upto.simps)

lemma get_active_sboxes_range: "set (get_active_sboxes x) \<subseteq> {1, 2, 3, 4}"
  unfolding get_active_sboxes_def py_range_0_4 by (rule active_labels)

lemma length_fold_cons: "length (fold (\<lambda>i g. f i # g) is acc) = length is + length acc"
  by (induction "is" arbitrary: acc) simp_all

lemma convert_to_block_total:
  assumes "\<forall>s\<in>set active. s * 4 \<le> data_size dc"
  shows "\<exists>k. convert_to_block dc active i = Inr k"
  unfolding convert_to_block_def Let_def
proof (rule for_each_total)
  fix j :: int and s :: int
  let ?groups = "fold (\<lambda>j groups. (drop_bit (nat (4 * j)) i AND 15) # groups)
                   (py_range 0 (int (length active))) []"
  have len: "length ?groups = length active"
    by (simp add: length_fold_cons py_range_def)
  assume "j \<in> set (py_range 0 (int (length active)))"
  then have j: "0 \<le> j" "j < int (length active)" by (simp_all add: py_range_def)
  then have "nat j < length active" by simp
  then have "active ! nat j \<in> set active" by (rule nth_mem)
  with assms have "active ! nat j * 4 \<le> data_size dc" by blast
  with j show "\<exists>s'. py_bind (list_getitem active j) (\<lambda>sbox_index.
         py_bind (list_getitem ?groups j) (\<lambda>group.
         py_bind (py_lshift group (data_size dc - sbox_index * 4)) (\<lambda>sa.
         Inr (s OR sa)))) = Inr s'"
    by (simp add: list_getitem_def len py_lshift_def)
qed

lemma pair_count_total:
  assumes "SP_Network.data_size (sp_network dc) = 4 * int m"
  shows "\<exists>v. pair_count dc ciphertext_pairs diff subkey = Inr v"
  unfolding pair_count_def
  by (rule for_each_total)
     (auto simp add: partial_decrypt_def substitute_fold [OF assms])

lemma perform_attack_char:
  fixes dc :: DifferentialCryptanalysis and diff :: int and pairs :: "(int \<times> int) list"
  assumes ds: "16 \<le> data_size dc" "SP_Network.data_size (sp_network dc) = 4 * int m"
  defines "active \<equiv> get_active_sboxes diff"
  defines "cands \<equiv> py_range 1 ((2 ^ 4) ^ length (get_active_sboxes diff))"
  shows "(active = [] \<longrightarrow> perform_attack dc pairs diff = Inr None) \<and>
         (active \<noteq> [] \<longrightarrow>
            (\<exists>p<length cands. \<exists>k v.
               perform_attack dc pairs diff = Inr (Some k) \<and>
               convert_to_block dc active (cands ! p) = Inr k \<and>
               pair_count dc pairs diff k = Inr v \<and>
               (\<forall>q<length cands. \<exists>kq vq.
                  convert_to_block dc active (cands ! q) = Inr kq \<and>
                  pair_count dc pairs diff kq = Inr vq \<and> vq \<le> v \<and> (q < p \<longrightarrow> vq < v))))"
proof -
  define c where "c i = (case convert_to_block dc active i of Inr k \<Rightarrow> k | Inl e \<Rightarrow> 0)" for i
  define g where "g k = (case pair_count dc pairs diff k of Inr v \<Rightarrow> v | Inl e \<Rightarrow> 0)" for k
  have "\<forall>s\<in>set active. s * 4 \<le> data_size dc"
    using get_active_sboxes_range [of diff] ds(1) by (auto simp add: active_def)
  then have c: "convert_to_block dc active i = Inr (c i)" for i
    using convert_to_block_total [of active dc i] by (auto simp add: c_def)
  have g: "pair_count dc pairs diff k = Inr (g k)" for k
    using pair_count_total [OF ds(2), of pairs diff k] by (auto simp add: g_def)
  let ?d = "fold (\<lambda>i sc. AList.update (c i) (g (c i)) sc) cands []"
  have loop: "for_each (\<lambda>i subkey_counts.
              py_bind (convert_to_block dc active i) (\<lambda>subkey.
              py_bind (pair_count dc pairs diff subkey) (\<lambda>count.
              Inr (AList.update subkey count subkey_counts)))) cands [] = Inr ?d"
    by (rule for_each_fold) (simp add: c g)
  have pa: "perform_attack dc pairs diff =
              (if ?d \<noteq> [] then py_bind (py_max_key ?d) (\<lambda>k. Inr (Some k)) else Inr None)"
    using loop by (simp add: perform_attack_def Let_def active_def cands_def)
  show ?thesis
  proof (intro conjI impI)
    assume "active = []"
    then have "cands = []" by (simp add: cands_def active_def py_range_def)
    then show "perform_attack dc pairs diff = Inr None" by (simp add: pa)
  next
    assume "active \<noteq> []"
    then have "0 < length (get_active_sboxes diff)" by (simp add: active_def)
    then have "(2 :: int) ^ 4 \<le> (2 ^ 4) ^ length (get_active_sboxes diff)"
      by (intro self_le_power) simp_all
    then have ne: "cands \<noteq> []" by (simp add: cands_def py_range_def)
    from counts_table_max [OF ne, of c g]
    obtain p where p: "p < length cands" "?d \<noteq> []" "py_max_key ?d = Inr (c (cands ! p))"
      "\<forall>q<length cands. g (c (cands ! q)) \<le> g (c (cands ! p))"
      "\<forall>q<p. g (c (cands ! q)) < g (c (cands ! p))" by blast
    show "\<exists>p<length cands. \<exists>k v.
               perform_attack dc pairs diff = Inr (Some k) \<and>
               convert_to_block dc active (cands ! p) = Inr k \<and>
               pair_count dc pairs diff k = Inr v \<and>
               (\<forall>q<length cands. \<exists>kq vq.
                  convert_to_block dc active (cands ! q) = Inr kq \<and>
                  pair_count dc pairs diff kq = Inr vq \<and> vq \<le> v \<and> (q < p \<longrightarrow> vq < v))"
      using p by (intro exI [of _ p] exI [of _ "c (cands ! p)"] exI [of _ "g (c (cands ! p))"])
                 (simp add: pa c g)
  qed
qed

lemma nth_py_range: "q < length (py_range a b) \<Longrightarrow> py_range a b ! q = a + int q"
  by (simp add: py_range_def)

lemma py_range_index:
  "a \<le> i \<Longrightarrow> i < b \<Longrightarrow> nat (i - a) < length (py_range a b) \<and> py_range a b ! nat (i - a) = i"
  by (simp add: py_range_def)

lemma first_max_row:
  assumes "0 < D"
  shows "\<exists>dy. 0 \<le> dy \<and> dy < D \<and>
           py_max_key (map (\<lambda>k. (k, g k)) (py_range 0 D)) = Inr dy \<and>
           (\<forall>dy'. 0 \<le> dy' \<and> dy' < D \<longrightarrow> g dy' \<le> g dy \<and> (dy' < dy \<longrightarrow> g dy' < g dy))"
proof -
  let ?ks = "py_range 0 D"
  have ne: "?ks \<noteq> []" using assms by (simp add: py_range_def)
  have "distinct ?ks" by (simp add: py_range_def)
  then have row: "fold (\<lambda>k sc. AList.update k (g k) sc) ?ks [] = map (\<lambda>k. (k, g k)) ?ks"
    by (rule fold_update_distinct)
  from counts_table_max [OF ne, of "\<lambda>k. k" g]
  obtain p where p: "p < length ?ks" "py_max_key (map (\<lambda>k. (k, g k)) ?ks) = Inr (?ks ! p)"
    "\<forall>q<length ?ks. g (?ks ! q) \<le> g (?ks ! p)" "\<forall>q<p. g (?ks ! q) < g (?ks ! p)"
    unfolding row by blast
  have kp: "?ks ! p = int p" using p(1) by (simp add: nth_py_range)
  have "g dy' \<le> g (int p) \<and> (dy' < int p \<longrightarrow> g dy' < g (int p))"
    if "0 \<le> dy' \<and> dy' < D" for dy'
  proof -
    from that py_range_index [of 0 dy' D]
    have q: "nat dy' < length ?ks" "?ks ! nat dy' = dy'" by simp_all
    from p(3) q have "g dy' \<le> g (int p)" unfolding kp by metis
    moreover have "g dy' < g (int p)" if "dy' < int p"
    proof -
      from that \<open>0 \<le> dy' \<and> dy' < D\<close> have "nat dy' < p" by linarith
      with p(4) q(2) show ?thesis unfolding kp by metis
    qed
    ultimately show ?thesis by blast
  qed
  moreover have "0 \<le> int p \<and> int p < D" using p(1) by (simp add: py_range_def)
  ultimately show ?thesis using p(2) kp by (intro exI [of _ "int p"]) simp
qed

section \<open>Facts about the difference distribution table\<close>

lemma map_of_fold_update:
  "map_of (fold (\<lambda>k t. AList.update k (f k) t) ks t) k
     = (if k \<in> set ks then Some (f k) else map_of t k)"
  by (induction ks arbitrary: t) (auto simp add: update_conv')

lemma fold_count_filter:
  "fold (\<lambda>x c. if P x then c + 1 else c) xs (a :: int) = a + int (length (filter P xs))"
  by (induction xs arbitrary: a) auto

lemma ddt_count_filter:
  "ddt_count dc dx dy =
     int (length (filter (\<lambda>x. sbox (sp_network dc) x False XOR sbox (sp_network dc) (x XOR dx) False = dy)
                    (py_range 0 (data_size dc))))"
  by (simp add: ddt_count_def fold_count_filter)

lemma sum_list_indicator:
  "distinct ys \<Longrightarrow> (\<Sum>y\<leftarrow>ys. if a = y then 1 else 0) = (if a \<in> set ys then 1 else (0::int))"
  by (induction ys) auto

lemma sum_list_fibres:
  "distinct ys \<Longrightarrow> \<forall>x\<in>set xs. g x \<in> set ys \<Longrightarrow>
     (\<Sum>y\<leftarrow>ys. int (length (filter (\<lambda>x. g x = y) xs))) = int (length xs)"
proof (induction xs)
  case Nil
  then show ?case by simp
next
  case (Cons x xs)
  have "(\<Sum>y\<leftarrow>ys. int (length (filter (\<lambda>x. g x = y) (x # xs))))
          = (\<Sum>y\<leftarrow>ys. (if g x = y then 1 else 0) + int (length (filter (\<lambda>x. g x = y) xs)))"
    by (rule arg_cong [where f = sum_list]) simp
  also have "\<dots> = (\<Sum>y\<leftarrow>ys. if g x = y then 1 else 0)
                     + (\<Sum>y\<leftarrow>ys. int (length (filter (\<lambda>x. g x = y) xs)))"
    by (simp add: sum_list_addf)
  also have "\<dots> = 1 + int (length xs)"
    using Cons by (simp add: sum_list_indicator)
  finally show ?case by simp
qed

lemma calculated_table:
  assumes "dc = calculate_difference_distribution (DifferentialCryptanalysis_init n)"
  shows "sp_network dc = n" "data_size dc = SP_Network.data_size n"
    and "map_of (difference_distribution dc) dx
           = (if 0 \<le> dx \<and> dx < SP_Network.data_size n then Some (ddt_row dc dx) else None)"
  using assms
  by (auto simp add: calculate_difference_distribution_def DifferentialCryptanalysis_init_def
        map_of_fold_update py_range_def ddt_row_def ddt_count_def)

lemma sbox_range:
  assumes "\<forall>v\<in>snd ` set (substitution n). 0 \<le> v \<and> v < 2 ^ k"
  shows "0 \<le> sbox n x False \<and> sbox n x False < 2 ^ k"
proof (cases "map_of (substitution n) x")
  case None
  then show ?thesis by (simp add: sbox_def dict_get_def)
next
  case (Some v)
  then have "(x, v) \<in> set (substitution n)" by (rule map_of_SomeD)
  then have "v \<in> snd ` set (substitution n)" by force
  with assms have "0 \<le> v \<and> v < 2 ^ k" by blast
  with Some show ?thesis by (simp add: sbox_def dict_get_def)
qed

lemma map_of_graph:
  "map_of (map (\<lambda>k. (k, f k)) ks) k = (if k \<in> set ks then Some (f k) else None)"
  by (induction ks) auto

lemma calculated_row:
  assumes "dc = calculate_difference_distribution (DifferentialCryptanalysis_init n)"
      and "0 \<le> dx" "dx < SP_Network.data_size n"
  shows "dict_getitem (difference_distribution dc) dx = Inr (ddt_row dc dx)"
  using assms(2-) calculated_table [OF assms(1)]
  by (simp add: dict_getitem_def)

lemma calculated_entry:
  assumes "dc = calculate_difference_distribution (DifferentialCryptanalysis_init n)"
      and "0 \<le> dy" "dy < SP_Network.data_size n"
  shows "dict_getitem (ddt_row dc dx) dy = Inr (ddt_count dc dx dy)"
  using assms(2-) calculated_table [OF assms(1)]
  by (simp add: dict_getitem_def ddt_row_def map_of_graph py_range_def)

lemma even_card_involution:
  fixes A :: "int set"
  assumes fin: "finite A"
      and inv: "\<forall>x\<in>A. f x \<in> A \<and> f (f x) = x \<and> f x \<noteq> x"
  shows "even (card A)"
proof -
  let ?L = "{x\<in>A. x < f x}" and ?H = "{x\<in>A. f x < x}"
  have un: "A = ?L \<union> ?H" using inv by force
  have dj: "?L \<inter> ?H = {}" by auto
  have img: "f ` ?L = ?H"
  proof (intro equalityI subsetI)
    fix y assume "y \<in> f ` ?L"
    then obtain x where "x \<in> A" "x < f x" "y = f x" by auto
    with inv show "y \<in> ?H" by auto
  next
    fix y assume "y \<in> ?H"
    then have "y \<in> A" "f y < y" by auto
    with inv have "f y \<in> ?L" "y = f (f y)" by auto
    then show "y \<in> f ` ?L" by (rule_tac image_eqI)
  qed
  have "inj_on f ?L"
    by (rule inj_on_inverseI [where g = f]) (use inv in auto)
  then have "card (f ` ?L) = card ?L"
    by (rule card_image)
  then have "card ?H = card ?L"
    by (simp only: img)
  moreover have "card A = card ?L + card ?H"
    using un dj fin card_Un_disjoint [of ?L ?H] by simp
  ultimately show ?thesis by simp
qed

lemma filter_card:
  "int (length (filter P [a..b])) = int (card {x\<in>{a..b}. P x})"
proof -
  have "distinct (filter P [a..b])" by simp
  then have "card (set (filter P [a..b])) = length (filter P [a..b])"
    by (rule distinct_card)
  moreover have "set (filter P [a..b]) = {x\<in>{a..b}. P x}" by auto
  ultimately show ?thesis by simp
qed

section \<open>Facts about the differential characteristic\<close>

lemma nibble_bits_low:
  fixes d :: int
  assumes "0 \<le> d" "d < 16" "bit d q"
  shows "q < 4"
proof -
  have "take_bit 4 d = d" using assms(1,2) by (simp add: take_bit_int_eq_self)
  with assms(3) have "bit (take_bit 4 d) q" by simp
  then show ?thesis by (simp add: bit_take_bit_iff)
qed

lemma nibble_of_placed:
  fixes d :: int
  assumes "0 \<le> d" "d < 16"
  shows "drop_bit (4 * j) (push_bit (4 * k) d) AND 15 = (if j = k then d else 0)"
proof (rule bit_eqI)
  fix q
  have low: "r < 4" if "bit d r" for r using assms that by (rule nibble_bits_low)
  show "bit (drop_bit (4 * j) (push_bit (4 * k) d) AND 15) q = bit (if j = k then d else 0) q"
  proof (cases "j = k")
    case True
    then show ?thesis using low [of q] by (auto simp add: mask4 bit_simps)
  next
    case False
    have "\<not> (4 * k \<le> 4 * j + q \<and> bit d (4 * j + q - 4 * k) \<and> q < 4)"
    proof
      assume a: "4 * k \<le> 4 * j + q \<and> bit d (4 * j + q - 4 * k) \<and> q < 4"
      then have "4 * j + q - 4 * k < 4" using low by blast
      with a False show False by linarith
    qed
    with False show ?thesis by (auto simp add: mask4 bit_simps)
  qed
qed

lemma nibble_of_or:
  fixes a b :: int
  shows "drop_bit k (a OR b) AND 15 = (drop_bit k a AND 15) OR (drop_bit k b AND 15)"
  by (simp add: bit.conj_disj_distrib2)

lemma nibble_of_or_fold:
  fixes acc :: int
  assumes "\<forall>l\<in>set ls. 1 \<le> l \<and> l \<le> 4 \<and> 0 \<le> t l \<and> t l < 16" "j < 4"
  shows "drop_bit (4 * j) (fold (\<lambda>l out. out OR push_bit (nat (16 - l * 4)) (t l)) ls acc) AND 15
           = (drop_bit (4 * j) acc AND 15) OR (if 4 - int j \<in> set ls then t (4 - int j) else 0)"
  using assms(1)
proof (induction ls arbitrary: acc)
  case Nil
  then show ?case by simp
next
  case (Cons l ls)
  have l: "1 \<le> l" "l \<le> 4" "0 \<le> t l" "t l < 16" using Cons.prems by simp_all
  then have sh: "nat (16 - l * 4) = 4 * nat (4 - l)" by linarith
  have eq: "(j = nat (4 - l)) = (l = 4 - int j)" using l assms(2) by linarith
  have "drop_bit (4 * j) (push_bit (nat (16 - l * 4)) (t l)) AND 15
          = (if l = 4 - int j then t l else 0)"
    unfolding sh using nibble_of_placed [OF l(3,4), of j "nat (4 - l)"] eq by simp
  moreover have "drop_bit (4 * j) (fold (\<lambda>l out. out OR push_bit (nat (16 - l * 4)) (t l)) ls
                   (acc OR push_bit (nat (16 - l * 4)) (t l))) AND 15
          = (drop_bit (4 * j) (acc OR push_bit (nat (16 - l * 4)) (t l)) AND 15)
              OR (if 4 - int j \<in> set ls then t (4 - int j) else 0)"
    using Cons.prems by (intro Cons.IH) simp
  ultimately show ?case
    by (auto simp add: nibble_of_or or.assoc simp del: drop_bit_or drop_bit_and push_bit_and push_bit_or)
qed

lemma fold_append_filter:
  "fold (\<lambda>i acc. if b i then acc @ [f i] else acc) is acc = acc @ map f (filter b is)"
  by (induction "is" arbitrary: acc) simp_all

lemma active_label_mem:
  assumes "j < 4"
  shows "(4 - int j \<in> set (map (\<lambda>i. 4 - i) (filter b [0, 1, 2, 3 :: int]))) = b (int j)"
proof -
  from assms have "j = 0 \<or> j = 1 \<or> j = 2 \<or> j = 3" by linarith
  then show ?thesis by (elim disjE) auto
qed

lemma get_active_sboxes_mem:
  assumes "j < 4"
  shows "(4 - int j \<in> set (get_active_sboxes u)) = (0 < drop_bit (4 * j) u AND 15)"
proof -
  have "nat (int j * 4) = 4 * j" by simp
  then show ?thesis
    unfolding get_active_sboxes_def py_range_0_4 fold_append_filter append_Nil
      active_label_mem [OF assms]
    by (simp only:)
qed

lemma ddt_count_bounds:
  "0 \<le> ddt_count dc dx dy \<and> ddt_count dc dx dy \<le> int (length (py_range 0 (data_size dc)))"
  unfolding ddt_count_filter by simp

lemma ddt_count_positive:
  assumes "0 < data_size dc"
  shows "0 < ddt_count dc dx (sbox (sp_network dc) 0 False XOR sbox (sp_network dc) dx False)"
proof -
  let ?P = "\<lambda>x. sbox (sp_network dc) x False XOR sbox (sp_network dc) (x XOR dx) False
                = sbox (sp_network dc) 0 False XOR sbox (sp_network dc) dx False"
  have "0 \<in> set (filter ?P (py_range 0 (data_size dc)))"
    using assms by (simp add: py_range_def)
  then have "0 < length (filter ?P (py_range 0 (data_size dc)))"
    by (rule length_pos_if_in_set)
  then show ?thesis unfolding ddt_count_filter by simp
qed

lemma max_delta_y_count:
  assumes dc: "dc = calculate_difference_distribution (DifferentialCryptanalysis_init n)"
      and ds: "SP_Network.data_size n = 16"
      and rng: "\<forall>x. 0 \<le> sbox n x False \<and> sbox n x False < 16"
      and dx: "0 \<le> dx" "dx < 16"
  shows "\<exists>dy. 0 \<le> dy \<and> dy < 16 \<and> get_max_delta_y dc dx = Inr dy \<and>
           0 < ddt_count dc dx dy \<and> ddt_count dc dx dy \<le> 16"
proof -
  note c = calculated_table [OF dc]
  have row: "dict_getitem (difference_distribution dc) dx = Inr (ddt_row dc dx)"
    using dx by (intro calculated_row [OF dc]) (simp_all add: ds)
  from first_max_row [of 16 "ddt_count dc dx"]
  obtain dy where dy: "0 \<le> dy \<and> dy < 16" "py_max_key (ddt_row dc dx) = Inr dy"
    "\<forall>dy'. 0 \<le> dy' \<and> dy' < 16 \<longrightarrow> ddt_count dc dx dy' \<le> ddt_count dc dx dy \<and>
          (dy' < dy \<longrightarrow> ddt_count dc dx dy' < ddt_count dc dx dy)"
    unfolding ddt_row_def c ds by auto
  let ?d0 = "sbox n 0 False XOR sbox n dx False"
  have "0 \<le> sbox n 0 False" "sbox n 0 False < 2 ^ 4" "sbox n dx False < 2 ^ 4"
       "0 \<le> sbox n dx False"
    using rng by simp_all
  then have "0 \<le> ?d0 \<and> ?d0 < 2 ^ 4"
    by (intro conjI XOR_upper) simp_all
  with dy(3) have "ddt_count dc dx ?d0 \<le> ddt_count dc dx dy" by simp
  moreover have "0 < ddt_count dc dx ?d0"
    using ddt_count_positive [of dc dx] by (simp add: c ds)
  moreover have "ddt_count dc dx dy \<le> 16"
    using ddt_count_bounds [of dc dx dy] by (simp add: c ds py_range_def)
  ultimately show ?thesis
    using dy(1,2) by (intro exI [of _ dy]) (simp add: get_max_delta_y_def row)
qed

lemma output_difference_nibbles:
  assumes dc: "dc = calculate_difference_distribution (DifferentialCryptanalysis_init n)"
      and ds: "SP_Network.data_size n = 16"
      and rng: "\<forall>x. 0 \<le> sbox n x False \<and> sbox n x False < 16"
  shows "\<exists>v. get_output_difference dc u = Inr v \<and>
           (\<forall>j<4. (drop_bit (4 * j) u AND 15 = 0 \<longrightarrow> drop_bit (4 * j) v AND 15 = 0) \<and>
                   (drop_bit (4 * j) u AND 15 \<noteq> 0 \<longrightarrow>
                      get_max_delta_y dc (drop_bit (4 * j) u AND 15)
                        = Inr (drop_bit (4 * j) v AND 15)))"
proof -
  note c = calculated_table [OF dc]
  define mdy where "mdy dx = (case get_max_delta_y dc dx of Inr d \<Rightarrow> d | Inl e \<Rightarrow> 0)" for dx
  have mdy: "get_max_delta_y dc (a AND 15) = Inr (mdy (a AND 15)) \<and>
             0 \<le> mdy (a AND 15) \<and> mdy (a AND 15) < 16" for a
    using max_delta_y_count [OF dc ds rng, of "a AND 15"] and_15_range [of a]
    by (auto simp add: mdy_def)
  define t where "t l = mdy (drop_bit (nat (16 - l * 4)) u AND 15)" for l
  let ?v = "fold (\<lambda>l out. out OR push_bit (nat (16 - l * 4)) (t l)) (get_active_sboxes u) 0"
  have lab: "\<forall>l\<in>set (get_active_sboxes u). 1 \<le> l \<and> l \<le> 4 \<and> 0 \<le> t l \<and> t l < 16"
    using get_active_sboxes_range [of u] mdy by (auto simp add: t_def)
  have v: "get_output_difference dc u = Inr ?v"
    unfolding get_output_difference_def
    by (rule for_each_fold)
       (use lab mdy in \<open>auto simp add: c ds py_rshift_def py_lshift_def t_def\<close>)
  have "(drop_bit (4 * j) u AND 15 = 0 \<longrightarrow> drop_bit (4 * j) ?v AND 15 = 0) \<and>
        (drop_bit (4 * j) u AND 15 \<noteq> 0 \<longrightarrow>
           get_max_delta_y dc (drop_bit (4 * j) u AND 15) = Inr (drop_bit (4 * j) ?v AND 15))"
    if j: "j < 4" for j
  proof -
    have sh: "nat (16 - (4 - int j) * 4) = 4 * j" using j by simp
    have pos: "(0 < drop_bit (4 * j) u AND 15) = (drop_bit (4 * j) u AND 15 \<noteq> 0)"
      using and_15_range [of "drop_bit (4 * j) u"] by linarith
    have "drop_bit (4 * j) ?v AND 15
            = (if 4 - int j \<in> set (get_active_sboxes u) then t (4 - int j) else 0)"
      using nibble_of_or_fold [OF lab j, of 0] by simp
    also have "\<dots> = (if drop_bit (4 * j) u AND 15 \<noteq> 0 then mdy (drop_bit (4 * j) u AND 15) else 0)"
      unfolding get_active_sboxes_mem [OF j] pos t_def sh ..
    finally show ?thesis using mdy by simp
  qed
  with v show ?thesis by blast
qed

lemma count_quotient_bounds:
  assumes "0 < c" "c \<le> 16"
  shows "\<exists>f. py_true_div c 16 = Inr f \<and> 2 powi (- 4) \<le> f \<and> f \<le> 1"
proof -
  let ?x = "(of_int c :: rat) / of_int 16"
  have "(1 :: rat) \<le> of_int c" using assms(1) by simp
  then have lo: "2 powi (- 4) \<le> ?x" by (simp add: power_int_minus)
  have "(of_int c :: rat) \<le> of_int 16" using assms(2) by (simp only: of_int_le_iff)
  then have hi: "?x \<le> 1" by simp
  have "0 \<le> ?x" using assms(1) by simp
  from float_round_lower [OF lo] float_round_unit(2) [OF this hi]
  show ?thesis by (simp add: py_true_div_def)
qed

lemma float_mul_bounds:
  assumes p: "2 powi (- a) \<le> p" "p \<le> 1" and f: "2 powi (- b) \<le> f" "f \<le> 1"
      and ab: "a + b \<le> 1074"
  shows "2 powi (- (a + b)) \<le> py_float_mul p f" "py_float_mul p f \<le> 1"
proof -
  have p0: "0 < p" using p(1) zero_less_power_int [of "2::rat" "- a"] by linarith
  have f0: "0 < f" using f(1) zero_less_power_int [of "2::rat" "- b"] by linarith
  have "2 powi (- (a + b)) = (2::rat) powi (- a) * 2 powi (- b)"
    using powi2_add [of "- a" "- b"] by simp
  also have "\<dots> \<le> p * f" using p(1) f(1) p0 by (intro mult_mono) simp_all
  finally show "2 powi (- (a + b)) \<le> py_float_mul p f"
    unfolding py_float_mul_def using ab by (rule float_round_lower)
  have "0 \<le> p * f" "p * f \<le> 1" using p0 f0 p(2) f(2) by (simp_all add: mult_le_one)
  then show "py_float_mul p f \<le> 1" unfolding py_float_mul_def by (rule float_round_unit(2))
qed

lemma float_mul_unit:
  assumes "0 \<le> p" "p \<le> 1" "0 \<le> f" "f \<le> 1"
  shows "0 \<le> py_float_mul p f" "py_float_mul p f \<le> 1"
proof -
  have "0 \<le> p * f" "p * f \<le> 1" using assms by (simp_all add: mult_le_one)
  then show "0 \<le> py_float_mul p f" "py_float_mul p f \<le> 1"
    unfolding py_float_mul_def by (rule float_round_unit)+
qed

lemma pair_probability_bounds:
  assumes dc: "dc = calculate_difference_distribution (DifferentialCryptanalysis_init n)"
      and ds: "SP_Network.data_size n = 16"
      and rng: "\<forall>x. 0 \<le> sbox n x False \<and> sbox n x False < 16"
      and nib: "\<forall>j<4. (drop_bit (4 * j) u AND 15 = 0 \<longrightarrow> drop_bit (4 * j) v AND 15 = 0) \<and>
                   (drop_bit (4 * j) u AND 15 \<noteq> 0 \<longrightarrow>
                      get_max_delta_y dc (drop_bit (4 * j) u AND 15)
                        = Inr (drop_bit (4 * j) v AND 15))"
  shows "\<exists>q. get_difference_pair_probability dc u v = Inr q \<and> 2 powi (- 16) \<le> q \<and> q \<le> 1"
proof -
  define P where "P k q \<longleftrightarrow> 2 powi (- (4 * int k)) \<le> q \<and> q \<le> 1" for k and q :: rat
  have "\<exists>q. get_difference_pair_probability dc u v = Inr q \<and> P (length (py_range 0 4)) q"
    unfolding get_difference_pair_probability_def
  proof (rule for_each_counted [where P = P])
    show "P 0 1" by (simp add: P_def)
  next
    fix k :: nat and q :: rat
    note c = calculated_table [OF dc]
    assume k: "k < length (py_range 0 4)" and q: "P k q"
    then have k4: "k < 4" by (simp add: py_range_def)
    have i: "py_range 0 4 ! k = int k" using nth_py_range [OF k] by simp
    have sh: "nat (int k * 4) = 4 * k" by simp
    let ?dx = "drop_bit (4 * k) u AND 15" and ?dy = "drop_bit (4 * k) v AND 15"
    have step: "\<exists>q'. (if ?dx = 0 \<and> ?dy = 0 then Inr q
           else py_bind (dict_getitem (difference_distribution dc) ?dx) (\<lambda>row.
                py_bind (dict_getitem row ?dy) (\<lambda>c.
                py_bind (py_true_div c (data_size dc)) (\<lambda>f.
                Inr (py_float_mul q f))))) = Inr q' \<and> P (Suc k) q'"
    proof (cases "?dx = 0")
      case True
      with nib k4 have "?dy = 0" by blast
      moreover have "(2::rat) powi (- (4 * int (Suc k))) \<le> 2 powi (- (4 * int k))"
        by (simp add: powi2_le)
      ultimately show ?thesis using True q by (auto simp add: P_def)
    next
      case False
      with nib k4 have m: "get_max_delta_y dc ?dx = Inr ?dy" by blast
      have dx: "0 \<le> ?dx" "?dx < 16" using and_15_range [of "drop_bit (4 * k) u"] by simp_all
      have dy: "0 \<le> ?dy" "?dy < 16" using and_15_range [of "drop_bit (4 * k) v"] by simp_all
      from max_delta_y_count [OF dc ds rng dx] m
      have cnt: "0 < ddt_count dc ?dx ?dy" "ddt_count dc ?dx ?dy \<le> 16" by auto
      have row: "dict_getitem (difference_distribution dc) ?dx = Inr (ddt_row dc ?dx)"
        using dx by (intro calculated_row [OF dc]) (simp_all add: ds)
      have ent: "dict_getitem (ddt_row dc ?dx) ?dy = Inr (ddt_count dc ?dx ?dy)"
        using dy by (intro calculated_entry [OF dc]) (simp_all add: ds)
      from count_quotient_bounds [OF cnt]
      obtain f where f: "py_true_div (ddt_count dc ?dx ?dy) 16 = Inr f" "2 powi (- 4) \<le> f" "f \<le> 1"
        by blast
      have "4 * int k + 4 \<le> 1074" using k4 by simp
      from float_mul_bounds [OF _ _ f(2,3) this, of q] q
      have "P (Suc k) (py_float_mul q f)" by (simp add: P_def algebra_simps)
      then show ?thesis using False by (simp add: row ent c ds f(1))
    qed
    show "\<exists>q'. (let delta_x = drop_bit (nat (py_range 0 4 ! k * 4)) u AND 15;
                       delta_y = drop_bit (nat (py_range 0 4 ! k * 4)) v AND 15
           in if delta_x = 0 \<and> delta_y = 0 then Inr q
           else py_bind (dict_getitem (difference_distribution dc) delta_x) (\<lambda>row.
                py_bind (dict_getitem row delta_y) (\<lambda>c.
                py_bind (py_true_div c (data_size dc)) (\<lambda>f.
                Inr (py_float_mul q f))))) = Inr q' \<and> P (Suc k) q'"
      unfolding Let_def i sh by (rule step)
  qed
  then show ?thesis by (simp add: P_def py_range_def)
qed

section \<open>Facts about the example cipher\<close>

lemma main_network:
  "\<exists>n. SP_Network_init main_keys main_substitution main_permutation = Inr n"
  by (simp add: SP_Network_init_def main_permutation_def main_substitution_def)

lemma main_substitution_size: "int (length main_substitution) = 2 ^ 4"
  by (simp add: main_substitution_def)

lemma main_substitution_values:
  "\<forall>v\<in>snd ` set main_substitution. 0 \<le> v \<and> v < int (length main_substitution)"
  by (simp add: main_substitution_def)

lemma main_perm_ok:
  "\<forall>i\<in>{1..int (length main_permutation)}.
      map_of main_permutation i = Some (dict_get main_permutation i 0) \<and>
      1 \<le> dict_get main_permutation i 0 \<and>
      dict_get main_permutation i 0 \<le> int (length main_permutation)"
  unfolding set_upto [symmetric]
  by (simp add: main_permutation_def dict_get_def upto.simps)

lemma main_permutation_involution:
  "\<forall>i\<in>{1..16}. map_of main_permutation i = Some (dict_get main_permutation i 0) \<and>
      1 \<le> dict_get main_permutation i 0 \<and> dict_get main_permutation i 0 \<le> 16 \<and>
      dict_get main_permutation (dict_get main_permutation i 0) 0 = i"
  unfolding set_upto [symmetric]
  by (simp add: main_permutation_def dict_get_def upto.simps)

lemma main_substitution_bijection:
  "length main_substitution = 16"
  "fst ` set main_substitution = {0..15}"
  "snd ` set main_substitution = {0..15}"
  unfolding set_upto [symmetric]
  by (auto simp add: main_substitution_def upto.simps)

lemma main_keys_range: "main_keys \<noteq> []" "\<forall>k\<in>set main_keys. 0 \<le> k \<and> k < 2 ^ 16"
  by (simp_all add: main_keys_def)

lemma main_substitution_nibbles:
  "\<forall>(a, v)\<in>set main_substitution. 0 \<le> a \<and> a < 16 \<and> 0 \<le> v \<and> v < 16"
  by (simp add: main_substitution_def)

lemma active_sboxes_1: "get_active_sboxes 1 \<noteq> []"
  by (simp add: get_active_sboxes_def py_range_def upto.simps)

lemma main_permutation_valid:
  "\<forall>i\<in>{1..16}. \<exists>p. map_of main_permutation i = Some p \<and> 1 \<le> p \<and> p \<le> 16"
  using main_permutation_involution by blast

section \<open>The example tables over many rounds\<close>

text \<open>
  The difference distribution table of the driver's substitution table, row by row,
  for any key list, and the first maximum of each row.
\<close>

lemma main_table_rows:
  assumes init: "SP_Network_init ks main_substitution main_permutation = Inr n"
      and dc: "dc = calculate_difference_distribution (DifferentialCryptanalysis_init n)"
  shows
    "ddt_row dc 1 =
       [(0, 0), (1, 0), (2, 0), (3, 2), (4, 0), (5, 0), (6, 0), (7, 2),
        (8, 0), (9, 2), (10, 4), (11, 0), (12, 4), (13, 2), (14, 0), (15, 0)]"
    "ddt_row dc 2 =
       [(0, 0), (1, 0), (2, 0), (3, 2), (4, 0), (5, 6), (6, 2), (7, 2),
        (8, 0), (9, 2), (10, 0), (11, 0), (12, 0), (13, 0), (14, 2), (15, 0)]"
    "ddt_row dc 3 =
       [(0, 0), (1, 0), (2, 2), (3, 0), (4, 2), (5, 0), (6, 0), (7, 0),
        (8, 0), (9, 4), (10, 2), (11, 0), (12, 2), (13, 0), (14, 0), (15, 4)]"
    "ddt_row dc 4 =
       [(0, 0), (1, 0), (2, 0), (3, 2), (4, 0), (5, 0), (6, 6), (7, 0),
        (8, 0), (9, 2), (10, 0), (11, 4), (12, 2), (13, 0), (14, 0), (15, 0)]"
    "ddt_row dc 5 =
       [(0, 0), (1, 4), (2, 0), (3, 0), (4, 0), (5, 2), (6, 2), (7, 0),
        (8, 0), (9, 0), (10, 4), (11, 0), (12, 2), (13, 0), (14, 0), (15, 2)]"
    "ddt_row dc 6 =
       [(0, 0), (1, 0), (2, 0), (3, 4), (4, 0), (5, 4), (6, 0), (7, 0),
        (8, 0), (9, 0), (10, 0), (11, 0), (12, 2), (13, 2), (14, 2), (15, 2)]"
    "ddt_row dc 7 =
       [(0, 0), (1, 0), (2, 2), (3, 2), (4, 2), (5, 0), (6, 2), (7, 0),
        (8, 0), (9, 2), (10, 2), (11, 0), (12, 0), (13, 0), (14, 0), (15, 4)]"
    "ddt_row dc 8 =
       [(0, 0), (1, 0), (2, 0), (3, 0), (4, 0), (5, 0), (6, 2), (7, 2),
        (8, 0), (9, 0), (10, 0), (11, 4), (12, 0), (13, 4), (14, 2), (15, 2)]"
    "ddt_row dc 9 =
       [(0, 0), (1, 2), (2, 0), (3, 0), (4, 2), (5, 0), (6, 0), (7, 4),
        (8, 2), (9, 0), (10, 2), (11, 2), (12, 2), (13, 0), (14, 0), (15, 0)]"
    "ddt_row dc 10 =
       [(0, 0), (1, 2), (2, 2), (3, 0), (4, 0), (5, 0), (6, 0), (7, 0),
        (8, 6), (9, 0), (10, 0), (11, 2), (12, 0), (13, 0), (14, 4), (15, 0)]"
    "ddt_row dc 11 =
       [(0, 0), (1, 0), (2, 8), (3, 0), (4, 0), (5, 2), (6, 0), (7, 2),
        (8, 0), (9, 0), (10, 0), (11, 0), (12, 0), (13, 2), (14, 0), (15, 2)]"
    "ddt_row dc 12 =
       [(0, 0), (1, 2), (2, 0), (3, 0), (4, 2), (5, 2), (6, 2), (7, 0),
        (8, 0), (9, 0), (10, 0), (11, 2), (12, 0), (13, 6), (14, 0), (15, 0)]"
    "ddt_row dc 13 =
       [(0, 0), (1, 4), (2, 0), (3, 0), (4, 0), (5, 0), (6, 0), (7, 4),
        (8, 2), (9, 0), (10, 2), (11, 0), (12, 2), (13, 0), (14, 2), (15, 0)]"
    "ddt_row dc 14 =
       [(0, 0), (1, 0), (2, 2), (3, 4), (4, 2), (5, 0), (6, 0), (7, 0),
        (8, 6), (9, 0), (10, 0), (11, 0), (12, 0), (13, 0), (14, 2), (15, 0)]"
    "ddt_row dc 15 =
       [(0, 0), (1, 2), (2, 0), (3, 0), (4, 6), (5, 0), (6, 0), (7, 0),
        (8, 0), (9, 4), (10, 0), (11, 2), (12, 0), (13, 0), (14, 2), (15, 0)]"
proof -
  note f = init_fields [OF init] and c = calculated_table [OF dc]
  have ds: "SP_Network.data_size n = 16" by (simp add: f main_substitution_bijection(1))
  show "ddt_row dc 1 =
       [(0, 0), (1, 0), (2, 0), (3, 2), (4, 0), (5, 0), (6, 0), (7, 2),
        (8, 0), (9, 2), (10, 4), (11, 0), (12, 4), (13, 2), (14, 0), (15, 0)]"
    unfolding ddt_row_def ddt_count_def c ds sbox_def f if_False by code_simp
  show "ddt_row dc 2 =
       [(0, 0), (1, 0), (2, 0), (3, 2), (4, 0), (5, 6), (6, 2), (7, 2),
        (8, 0), (9, 2), (10, 0), (11, 0), (12, 0), (13, 0), (14, 2), (15, 0)]"
    unfolding ddt_row_def ddt_count_def c ds sbox_def f if_False by code_simp
  show "ddt_row dc 3 =
       [(0, 0), (1, 0), (2, 2), (3, 0), (4, 2), (5, 0), (6, 0), (7, 0),
        (8, 0), (9, 4), (10, 2), (11, 0), (12, 2), (13, 0), (14, 0), (15, 4)]"
    unfolding ddt_row_def ddt_count_def c ds sbox_def f if_False by code_simp
  show "ddt_row dc 4 =
       [(0, 0), (1, 0), (2, 0), (3, 2), (4, 0), (5, 0), (6, 6), (7, 0),
        (8, 0), (9, 2), (10, 0), (11, 4), (12, 2), (13, 0), (14, 0), (15, 0)]"
    unfolding ddt_row_def ddt_count_def c ds sbox_def f if_False by code_simp
  show "ddt_row dc 5 =
       [(0, 0), (1, 4), (2, 0), (3, 0), (4, 0), (5, 2), (6, 2), (7, 0),
        (8, 0), (9, 0), (10, 4), (11, 0), (12, 2), (13, 0), (14, 0), (15, 2)]"
    unfolding ddt_row_def ddt_count_def c ds sbox_def f if_False by code_simp
  show "ddt_row dc 6 =
       [(0, 0), (1, 0), (2, 0), (3, 4), (4, 0), (5, 4), (6, 0), (7, 0),
        (8, 0), (9, 0), (10, 0), (11, 0), (12, 2), (13, 2), (14, 2), (15, 2)]"
    unfolding ddt_row_def ddt_count_def c ds sbox_def f if_False by code_simp
  show "ddt_row dc 7 =
       [(0, 0), (1, 0), (2, 2), (3, 2), (4, 2), (5, 0), (6, 2), (7, 0),
        (8, 0), (9, 2), (10, 2), (11, 0), (12, 0), (13, 0), (14, 0), (15, 4)]"
    unfolding ddt_row_def ddt_count_def c ds sbox_def f if_False by code_simp
  show "ddt_row dc 8 =
       [(0, 0), (1, 0), (2, 0), (3, 0), (4, 0), (5, 0), (6, 2), (7, 2),
        (8, 0), (9, 0), (10, 0), (11, 4), (12, 0), (13, 4), (14, 2), (15, 2)]"
    unfolding ddt_row_def ddt_count_def c ds sbox_def f if_False by code_simp
  show "ddt_row dc 9 =
       [(0, 0), (1, 2), (2, 0), (3, 0), (4, 2), (5, 0), (6, 0), (7, 4),
        (8, 2), (9, 0), (10, 2), (11, 2), (12, 2), (13, 0), (14, 0), (15, 0)]"
    unfolding ddt_row_def ddt_count_def c ds sbox_def f if_False by code_simp
  show "ddt_row dc 10 =
       [(0, 0), (1, 2), (2, 2), (3, 0), (4, 0), (5, 0), (6, 0), (7, 0),
        (8, 6), (9, 0), (10, 0), (11, 2), (12, 0), (13, 0), (14, 4), (15, 0)]"
    unfolding ddt_row_def ddt_count_def c ds sbox_def f if_False by code_simp
  show "ddt_row dc 11 =
       [(0, 0), (1, 0), (2, 8), (3, 0), (4, 0), (5, 2), (6, 0), (7, 2),
        (8, 0), (9, 0), (10, 0), (11, 0), (12, 0), (13, 2), (14, 0), (15, 2)]"
    unfolding ddt_row_def ddt_count_def c ds sbox_def f if_False by code_simp
  show "ddt_row dc 12 =
       [(0, 0), (1, 2), (2, 0), (3, 0), (4, 2), (5, 2), (6, 2), (7, 0),
        (8, 0), (9, 0), (10, 0), (11, 2), (12, 0), (13, 6), (14, 0), (15, 0)]"
    unfolding ddt_row_def ddt_count_def c ds sbox_def f if_False by code_simp
  show "ddt_row dc 13 =
       [(0, 0), (1, 4), (2, 0), (3, 0), (4, 0), (5, 0), (6, 0), (7, 4),
        (8, 2), (9, 0), (10, 2), (11, 0), (12, 2), (13, 0), (14, 2), (15, 0)]"
    unfolding ddt_row_def ddt_count_def c ds sbox_def f if_False by code_simp
  show "ddt_row dc 14 =
       [(0, 0), (1, 0), (2, 2), (3, 4), (4, 2), (5, 0), (6, 0), (7, 0),
        (8, 6), (9, 0), (10, 0), (11, 0), (12, 0), (13, 0), (14, 2), (15, 0)]"
    unfolding ddt_row_def ddt_count_def c ds sbox_def f if_False by code_simp
  show "ddt_row dc 15 =
       [(0, 0), (1, 2), (2, 0), (3, 0), (4, 6), (5, 0), (6, 0), (7, 0),
        (8, 0), (9, 4), (10, 0), (11, 2), (12, 0), (13, 0), (14, 2), (15, 0)]"
    unfolding ddt_row_def ddt_count_def c ds sbox_def f if_False by code_simp
qed

lemma main_table_maxima:
  assumes init: "SP_Network_init ks main_substitution main_permutation = Inr n"
      and dc: "dc = calculate_difference_distribution (DifferentialCryptanalysis_init n)"
  shows
    "get_max_delta_y dc 1 = Inr 10" "get_max_delta_y dc 2 = Inr 5"
    "get_max_delta_y dc 3 = Inr 9" "get_max_delta_y dc 4 = Inr 6"
    "get_max_delta_y dc 5 = Inr 1" "get_max_delta_y dc 6 = Inr 3"
    "get_max_delta_y dc 7 = Inr 15" "get_max_delta_y dc 8 = Inr 11"
    "get_max_delta_y dc 9 = Inr 7" "get_max_delta_y dc 10 = Inr 8"
    "get_max_delta_y dc 11 = Inr 2" "get_max_delta_y dc 12 = Inr 13"
    "get_max_delta_y dc 13 = Inr 1" "get_max_delta_y dc 14 = Inr 8"
    "get_max_delta_y dc 15 = Inr 4"
proof -
  have ds: "SP_Network.data_size n = 16"
    by (simp add: init_fields [OF init] main_substitution_bijection(1))
  have m: "get_max_delta_y dc dx = py_max_key (ddt_row dc dx)" if "0 \<le> dx" "dx < 16" for dx
    using calculated_row [OF dc, of dx] that by (simp add: get_max_delta_y_def ds)
  show
    "get_max_delta_y dc 1 = Inr 10" "get_max_delta_y dc 2 = Inr 5"
    "get_max_delta_y dc 3 = Inr 9" "get_max_delta_y dc 4 = Inr 6"
    "get_max_delta_y dc 5 = Inr 1" "get_max_delta_y dc 6 = Inr 3"
    "get_max_delta_y dc 7 = Inr 15" "get_max_delta_y dc 8 = Inr 11"
    "get_max_delta_y dc 9 = Inr 7" "get_max_delta_y dc 10 = Inr 8"
    "get_max_delta_y dc 11 = Inr 2" "get_max_delta_y dc 12 = Inr 13"
    "get_max_delta_y dc 13 = Inr 1" "get_max_delta_y dc 14 = Inr 8"
    "get_max_delta_y dc 15 = Inr 4"
    by (simp_all add: m main_table_rows [OF init dc] py_max_key_def)
qed

text \<open>
  From the input difference \<open>431 = 0x01AF\<close> the characteristic passes through four
  differences and then repeats with period four. For each of the eight differences:
  the output difference, the float probability of the pair as mantissa and exponent,
  and the next input difference.
\<close>

lemma main_rounds:
  assumes init: "SP_Network_init ks main_substitution main_permutation = Inr n"
      and dc: "dc = calculate_difference_distribution (DifferentialCryptanalysis_init n)"
  shows
    "get_output_difference dc 431 = Inr 2692"
    "get_difference_pair_probability dc 431 2692 = Inr (dyadic (144, 12))"
    "permute n 2692 = Inr 24896"
    "get_output_difference dc 24896 = Inr 14944"
    "get_difference_pair_probability dc 24896 14944 = Inr (dyadic (96, 12))"
    "permute n 14944 = Inr 17128"
    "get_output_difference dc 17128 = Inr 25995"
    "get_difference_pair_probability dc 17128 25995 = Inr (dyadic (864, 16))"
    "permute n 25995 = Inr 15509"
    "get_output_difference dc 15509 = Inr 40305"
    "get_difference_pair_probability dc 15509 40305 = Inr (dyadic (384, 16))"
    "permute n 40305 = Inr 50735"
    "get_output_difference dc 50735 = Inr 54100"
    "get_difference_pair_probability dc 50735 54100 = Inr (dyadic (864, 16))"
    "permute n 54100 = Inr 35662"
    "get_output_difference dc 35662 = Inr 45672"
    "get_difference_pair_probability dc 35662 45672 = Inr (dyadic (1152, 16))"
    "permute n 45672 = Inr 37608"
    "get_output_difference dc 37608 = Inr 30091"
    "get_difference_pair_probability dc 37608 30091 = Inr (dyadic (576, 16))"
    "permute n 30091 = Inr 15517"
    "get_output_difference dc 15517 = Inr 40305"
    "get_difference_pair_probability dc 15517 40305 = Inr (dyadic (384, 16))"
proof -
  note f = init_fields [OF init] and c = calculated_table [OF dc]
  note rows = main_table_rows [OF init dc] and maxima = main_table_maxima [OF init dc]
  have ds: "SP_Network.data_size n = 16" by (simp add: f main_substitution_bijection(1))
  have row: "dict_getitem (difference_distribution dc) dx = Inr (ddt_row dc dx)"
    if "0 \<le> dx" "dx < 16" for dx
    using calculated_row [OF dc, of dx] that by (simp add: ds)
  have one: "(1 :: rat) = dyadic (1, 0)" by (simp add: dyadic_def)
  have "get_active_sboxes 431 = [4, 3, 2]" by code_simp
  then show "get_output_difference dc 431 = Inr 2692"
    by (simp add: get_output_difference_def c ds py_rshift_def py_lshift_def maxima)
  show "get_difference_pair_probability dc 431 2692 = Inr (dyadic (144, 12))"
    unfolding get_difference_pair_probability_def py_range_0_4 one
    by (simp add: c ds row rows dict_getitem_def true_div_dyadic float_mul_small)
  show "permute n 2692 = Inr 24896"
    unfolding permute_def f ds main_substitution_bijection(1) by code_simp
  have "get_active_sboxes 24896 = [3, 2, 1]" by code_simp
  then show "get_output_difference dc 24896 = Inr 14944"
    by (simp add: get_output_difference_def c ds py_rshift_def py_lshift_def maxima)
  show "get_difference_pair_probability dc 24896 14944 = Inr (dyadic (96, 12))"
    unfolding get_difference_pair_probability_def py_range_0_4 one
    by (simp add: c ds row rows dict_getitem_def true_div_dyadic float_mul_small)
  show "permute n 14944 = Inr 17128"
    unfolding permute_def f ds main_substitution_bijection(1) by code_simp
  have "get_active_sboxes 17128 = [4, 3, 2, 1]" by code_simp
  then show "get_output_difference dc 17128 = Inr 25995"
    by (simp add: get_output_difference_def c ds py_rshift_def py_lshift_def maxima)
  show "get_difference_pair_probability dc 17128 25995 = Inr (dyadic (864, 16))"
    unfolding get_difference_pair_probability_def py_range_0_4 one
    by (simp add: c ds row rows dict_getitem_def true_div_dyadic float_mul_small)
  show "permute n 25995 = Inr 15509"
    unfolding permute_def f ds main_substitution_bijection(1) by code_simp
  have "get_active_sboxes 15509 = [4, 3, 2, 1]" by code_simp
  then show "get_output_difference dc 15509 = Inr 40305"
    by (simp add: get_output_difference_def c ds py_rshift_def py_lshift_def maxima)
  show "get_difference_pair_probability dc 15509 40305 = Inr (dyadic (384, 16))"
    unfolding get_difference_pair_probability_def py_range_0_4 one
    by (simp add: c ds row rows dict_getitem_def true_div_dyadic float_mul_small)
  show "permute n 40305 = Inr 50735"
    unfolding permute_def f ds main_substitution_bijection(1) by code_simp
  have "get_active_sboxes 50735 = [4, 3, 2, 1]" by code_simp
  then show "get_output_difference dc 50735 = Inr 54100"
    by (simp add: get_output_difference_def c ds py_rshift_def py_lshift_def maxima)
  show "get_difference_pair_probability dc 50735 54100 = Inr (dyadic (864, 16))"
    unfolding get_difference_pair_probability_def py_range_0_4 one
    by (simp add: c ds row rows dict_getitem_def true_div_dyadic float_mul_small)
  show "permute n 54100 = Inr 35662"
    unfolding permute_def f ds main_substitution_bijection(1) by code_simp
  have "get_active_sboxes 35662 = [4, 3, 2, 1]" by code_simp
  then show "get_output_difference dc 35662 = Inr 45672"
    by (simp add: get_output_difference_def c ds py_rshift_def py_lshift_def maxima)
  show "get_difference_pair_probability dc 35662 45672 = Inr (dyadic (1152, 16))"
    unfolding get_difference_pair_probability_def py_range_0_4 one
    by (simp add: c ds row rows dict_getitem_def true_div_dyadic float_mul_small)
  show "permute n 45672 = Inr 37608"
    unfolding permute_def f ds main_substitution_bijection(1) by code_simp
  have "get_active_sboxes 37608 = [4, 3, 2, 1]" by code_simp
  then show "get_output_difference dc 37608 = Inr 30091"
    by (simp add: get_output_difference_def c ds py_rshift_def py_lshift_def maxima)
  show "get_difference_pair_probability dc 37608 30091 = Inr (dyadic (576, 16))"
    unfolding get_difference_pair_probability_def py_range_0_4 one
    by (simp add: c ds row rows dict_getitem_def true_div_dyadic float_mul_small)
  show "permute n 30091 = Inr 15517"
    unfolding permute_def f ds main_substitution_bijection(1) by code_simp
  have "get_active_sboxes 15517 = [4, 3, 2, 1]" by code_simp
  then show "get_output_difference dc 15517 = Inr 40305"
    by (simp add: get_output_difference_def c ds py_rshift_def py_lshift_def maxima)
  show "get_difference_pair_probability dc 15517 40305 = Inr (dyadic (384, 16))"
    unfolding get_difference_pair_probability_def py_range_0_4 one
    by (simp add: c ds row rows dict_getitem_def true_div_dyadic float_mul_small)
qed

text \<open>
  With 166 round keys the loop of \<open>get_differential_characteristic\<close> runs 164 times.
  The float product is followed on mantissa and exponent: the last multiplication
  gives less than half of the least positive float \<open>2 ^ -1074\<close> and is rounded to 0.
\<close>

lemma main_characteristic_underflow:
  assumes len: "length ks = 166"
  shows "main_characteristic ks main_substitution main_permutation 431 = Inr (50735, 0)"
proof -
  obtain n where init: "SP_Network_init ks main_substitution main_permutation = Inr n"
    by (simp add: SP_Network_init_def main_permutation_def main_substitution_def)
  define dc where "dc = calculate_difference_distribution (DifferentialCryptanalysis_init n)"
  note f = init_fields [OF init] and c = calculated_table [OF dc_def]
   and r = main_rounds [OF init dc_def]
  define g :: "int \<times> int \<times> int \<Rightarrow> int \<times> int \<times> int" where
    "g = (\<lambda>(u, me).
       if u = 431 then (24896, float_mul_dyadic me (144, 12))
       else if u = 24896 then (17128, float_mul_dyadic me (96, 12))
       else if u = 17128 then (15509, float_mul_dyadic me (864, 16))
       else if u = 15509 then (50735, float_mul_dyadic me (384, 16))
       else if u = 50735 then (35662, float_mul_dyadic me (864, 16))
       else if u = 35662 then (37608, float_mul_dyadic me (1152, 16))
       else if u = 37608 then (15517, float_mul_dyadic me (576, 16))
       else (50735, float_mul_dyadic me (384, 16)))"
  define R where "R s t \<longleftrightarrow> fst s = fst t \<and> fst s \<in> {431, 24896, 17128, 15509, 50735, 35662, 37608, 15517} \<and>
      snd s = dyadic (snd t) \<and> 0 \<le> fst (snd t)"
    for s :: "int \<times> rat" and t :: "int \<times> int \<times> int"
  let ?body = "\<lambda>(u, probability).
        py_bind (get_output_difference dc u) (\<lambda>v.
        py_bind (get_difference_pair_probability dc u v) (\<lambda>q.
        py_bind (permute (sp_network dc) v) (\<lambda>u'.
        Inr (u', py_float_mul probability q))))"
  have step: "\<exists>s'. ?body s = Inr s' \<and> R s' (g t)" if rst: "R s t" for s t
  proof -
    obtain u p where s: "s = (u, p)" by (cases s)
    obtain me where t: "t = (u, me)" using rst s by (cases t) (simp add: R_def)
    from rst have p: "p = dyadic me" and me: "0 \<le> fst me"
      and u: "u \<in> {431, 24896, 17128, 15509, 50735, 35662, 37608, 15517}"
      by (simp_all add: R_def s t)
    have m: "py_float_mul (dyadic me) (dyadic (a, b)) = dyadic (float_mul_dyadic me (a, b))"
            "0 \<le> fst (float_mul_dyadic me (a, b))" if "0 \<le> a" for a b
      using float_mul_dyadic [OF me, of "(a, b)"] that by simp_all
    from u show ?thesis
      by (elim insertE emptyE) (simp_all add: s t p g_def R_def r c m)
  qed
  have trace: "(g ^^ 164) (431, 1, 0) = (50735, 0, 1074)"
    unfolding g_def by code_simp
  have "R (431, 1) (431, 1, 0)" by (simp add: R_def dyadic_def)
  from for_each_simulate [where R = R and g = g and body = "\<lambda>_. ?body", OF this step,
         of "py_range 0 164"]
  obtain s' where s': "for_each (\<lambda>_. ?body) (py_range 0 164) (431, 1) = Inr s'"
    and "R s' ((g ^^ length (py_range 0 164)) (431, 1, 0))"
    by blast
  moreover have "length (py_range 0 164) = 164" by (simp add: py_range_def)
  ultimately have "R s' (50735, 0, 1074)" by (simp only: trace)
  then have "s' = (50735, 0)" by (cases s') (simp add: R_def dyadic_def)
  with s' show ?thesis
    by (simp add: main_characteristic_def init get_differential_characteristic_def
          dc_def [symmetric] c f len)
qed

section \<open>The claims\<close>

subsection \<open>C1: decryption after encryption\<close>

text \<open>
  Keying and substitution are undone by the reverse rounds for every bijective
  substitution table. The bit permutation is undone only when the permutation table is
  its own inverse, as the driver's table is: then decryption returns the plaintext.
\<close>

lemma decrypt_encrypt_involution:
  assumes init: "SP_Network_init ks subst perm = Inr n"
      and size: "length subst = 16"
      and keys: "ks \<noteq> []" "\<forall>k\<in>set ks. 0 \<le> k \<and> k < 2 ^ 16"
      and dom: "fst ` set subst = {0..15}" and ran: "snd ` set subst = {0..15}"
      and perm: "3 \<le> length ks \<longrightarrow>
                 (\<forall>i\<in>{1..16}. map_of perm i = Some (\<pi> i) \<and>
                    1 \<le> \<pi> i \<and> \<pi> i \<le> 16 \<and> \<pi> (\<pi> i) = i)"
      and x: "0 \<le> x" "x < 2 ^ 16"
  shows "\<exists>c. encrypt n x = Inr c \<and> decrypt n c = Inr x"
proof -
  note f = init_fields [OF init]
  define P where "P y \<longleftrightarrow> 0 \<le> y \<and> y < 2 ^ 16" for y :: int
  have ds: "SP_Network.data_size n = 4 * int 4" "SP_Network.data_size n = 16"
    by (simp_all add: f size)
  have tab: "\<forall>(a, v)\<in>set (substitution n). 0 \<le> a \<and> a < 16 \<and> 0 \<le> v \<and> v < 16"
  proof -
    have "0 \<le> a \<and> a < 16 \<and> 0 \<le> v \<and> v < 16" if "(a, v) \<in> set subst" for a v
    proof -
      from that have "a \<in> fst ` set subst" "v \<in> snd ` set subst" by force+
      then show ?thesis unfolding dom ran by simp
    qed
    then show ?thesis unfolding f by blast
  qed
  have rng: "\<forall>g invert. 0 \<le> sbox n g invert \<and> sbox n g invert < 16"
    using sbox_nibble [OF tab] by (simp add: f)
  have inv: "\<forall>g. 0 \<le> g \<and> g < 16 \<longrightarrow> sbox n (sbox n g False) True = g"
    using sbox_inverse [OF f(2) f(7) size dom ran] by blast
  have S: "\<exists>z. substitute n y False = Inr z \<and> P z \<and> substitute n z True = Inr y" if "P y" for y
    using substitute_inverse [OF ds(1) rng inv, of y] that by (simp add: P_def)
  have Pm: "\<exists>z. permute n y = Inr z \<and> P z \<and> permute n z = Inr y"
    if "3 \<le> length ks" "P y" for y
    using permute_involution [OF ds(2), of \<pi> y] perm that by (simp add: P_def f)
  have K: "\<exists>z. keymix n r y = Inr z \<and> P z \<and> keymix n r z = Inr y"
    if "- int (length ks) \<le> r" "r < int (length ks)" "P y" for r y
  proof -
    from keymix_range [of n r 16 y] that keys(2)
    obtain z where "keymix n r y = Inr z" "P z" by (auto simp add: f P_def)
    then show ?thesis using keymix_twice by blast
  qed
  have len: "Suc 0 \<le> length ks" using keys(1) by (cases ks) simp_all
  have R: "\<exists>z. run_round n i y = Inr z \<and> P z \<and> run_reverse_round n i z = Inr y"
    if i: "i \<in> set (py_range 0 (rounds n - 1))" and y: "P y" for i y
  proof -
    from i have ir: "- int (length ks) \<le> i" "i < int (length ks)" and r: "3 \<le> length ks"
      by (auto simp add: py_range_def f)
    from K [OF ir y] obtain a where a: "keymix n i y = Inr a" "P a" "keymix n i a = Inr y" by blast
    from S [OF a(2)] obtain b where b: "substitute n a False = Inr b" "P b" "substitute n b True = Inr a" by blast
    from Pm [OF r b(2)] obtain c where c: "permute n b = Inr c" "P c" "permute n c = Inr b" by blast
    from a b c show ?thesis by (simp add: run_round_def run_reverse_round_def)
  qed
  have L: "\<exists>z. run_last_round n y = Inr z \<and> P z \<and> run_reverse_last_round n z = Inr y"
    if y: "P y" for y
  proof -
    have r1: "- int (length ks) \<le> rounds n - 1" "rounds n - 1 < int (length ks)"
     and r2: "- int (length ks) \<le> rounds n" "rounds n < int (length ks)"
      using len keys(1) by (simp_all add: f)
    from K [OF r1 y] obtain a where a: "keymix n (rounds n - 1) y = Inr a" "P a"
      "keymix n (rounds n - 1) a = Inr y" by blast
    from S [OF a(2)] obtain b where b: "substitute n a False = Inr b" "P b" "substitute n b True = Inr a" by blast
    from K [OF r2 b(2)] obtain c where c: "keymix n (rounds n) b = Inr c" "P c"
      "keymix n (rounds n) c = Inr b" by blast
    from a b c show ?thesis by (simp add: run_last_round_def run_reverse_last_round_def)
  qed
  have "P x" using x by (simp add: P_def)
  from for_each_undo [where P = P and f = "run_round n" and g = "run_reverse_round n", OF this R]
  obtain b where b: "for_each (run_round n) (py_range 0 (rounds n - 1)) x = Inr b" "P b"
    "for_each (run_reverse_round n) (rev (py_range 0 (rounds n - 1))) b = Inr x" by blast
  from L [OF b(2)] obtain c where c: "run_last_round n b = Inr c"
    "run_reverse_last_round n c = Inr b" by blast
  from b c show ?thesis by (simp add: encrypt_def decrypt_def)
qed

text \<open>The driver's cipher at its plaintext 782.\<close>

lemma main_decrypt_encrypt:
  "\<exists>n c. SP_Network_init main_keys main_substitution main_permutation = Inr n \<and>
     encrypt n 782 = Inr c \<and> decrypt n c = Inr 782"
proof -
  obtain n where n: "SP_Network_init main_keys main_substitution main_permutation = Inr n"
    using main_network by blast
  have "\<exists>c. encrypt n 782 = Inr c \<and> decrypt n c = Inr 782"
    by (rule decrypt_encrypt_involution [OF n main_substitution_bijection(1) main_keys_range
          main_substitution_bijection(2,3) impI [OF main_permutation_involution]]) simp_all
  with n show ?thesis by auto
qed

text \<open>
  Claim C1. For every valid cipher spec (round keys in \<open>[0, 2^N)\<close>, substitution and
  permutation tables bijections of their domains) and every plaintext \<open>x\<close> in
  \<open>[0, 2^N)\<close>, \<open>decrypt (encrypt x) = x\<close>. The code does not do that: \<open>run_reverse_round\<close>
  undoes the key mixing and, with the inverse table, the substitution, but it applies
  \<open>permute\<close> itself where the inverse bit permutation is due. With three round keys 0,
  the identity substitution table on \<open>{0..15}\<close> and the cyclic permutation table
  \<open>i \<mapsto> i + 1\<close>, \<open>16 \<mapsto> 1\<close>, the driver's steps on the plaintext 1 give the
  ciphertext 2 and the decryption 4.
\<close>

theorem decrypt_not_inverse:
  "main_cipher [0, 0, 0]
     [(0, 0), (1, 1), (2, 2), (3, 3), (4, 4), (5, 5), (6, 6), (7, 7),
      (8, 8), (9, 9), (10, 10), (11, 11), (12, 12), (13, 13), (14, 14), (15, 15)]
     [(1, 2), (2, 3), (3, 4), (4, 5), (5, 6), (6, 7), (7, 8), (8, 9),
      (9, 10), (10, 11), (11, 12), (12, 13), (13, 14), (14, 15), (15, 16), (16, 1)]
     1 = Inr (2, 4)"
  by code_simp
subsection \<open>C2: when the attack returns a candidate\<close>

text \<open>
  Claim C2, as amended. For a network built by the constructor with \<open>N = 4 m\<close>, \<open>m \<ge> 4\<close>
  table entries (\<open>N = 16\<close> in the driver), \<open>perform_attack\<close> raises no error, returns
  a candidate exactly when the target difference has an active nibble
  (\<open>get_active_sboxes\<close> is not empty), and returns \<open>None\<close> exactly when it has none.
  The number of ciphertext pairs plays no part: with no pairs every count is 0.
\<close>

theorem perform_attack_result:
  assumes init: "SP_Network_init ks subst perm = Inr n"
      and size: "int (length subst) = 4 * int m" "4 \<le> m"
      and dc: "dc = calculate_difference_distribution (DifferentialCryptanalysis_init n)"
  shows "(perform_attack dc pairs diff = Inr None) = (get_active_sboxes diff = []) \<and>
         (\<exists>k. perform_attack dc pairs diff = Inr (Some k)) = (get_active_sboxes diff \<noteq> [])"
proof -
  note f = init_fields [OF init] and c = calculated_table [OF dc]
  have ds: "16 \<le> data_size dc" "SP_Network.data_size (sp_network dc) = 4 * int m"
    using size by (simp_all add: c f)
  from perform_attack_char [OF ds, of diff pairs] show ?thesis
    by (cases "get_active_sboxes diff = []") auto
qed

text \<open>The driver's network, no pairs, target difference 1: a candidate is returned.\<close>

theorem perform_attack_result_witness:
  "\<exists>n k. SP_Network_init main_keys main_substitution main_permutation = Inr n \<and>
     get_active_sboxes 1 \<noteq> [] \<and>
     perform_attack (calculate_difference_distribution (DifferentialCryptanalysis_init n)) [] 1
       = Inr (Some k)"
proof -
  obtain n where n: "SP_Network_init main_keys main_substitution main_permutation = Inr n"
    using main_network by blast
  have size: "int (length main_substitution) = 4 * int 4" "(4 :: nat) \<le> 4"
    by (simp_all add: main_substitution_def)
  have a: "get_active_sboxes 1 \<noteq> []"
    by (simp add: get_active_sboxes_def py_range_def upto.simps)
  with perform_attack_result [OF n size refl, of "[]" 1]
  have "\<exists>k. perform_attack (calculate_difference_distribution (DifferentialCryptanalysis_init n)) [] 1
       = Inr (Some k)" by simp
  with n a show ?thesis by auto
qed

text \<open>
  The claim as stated fails in both directions on the driver's cipher: with no pairs
  and target difference 1 the attack returns the candidate 1, and with the pair
  \<open>(0, 0)\<close> and target difference 0 it returns \<open>None\<close>.
\<close>

theorem perform_attack_counterexample:
  "main_attack main_keys main_substitution main_permutation [] 1 = Inr (Some 1) \<and>
   main_attack main_keys main_substitution main_permutation [(0, 0)] 0 = Inr None"
  by code_simp

subsection \<open>C3: the rows of the difference distribution table\<close>

text \<open>
  Claim C3. Let the table be computed for a network built by the constructor whose
  substitution table has \<open>D = 2^k\<close> entries with values in \<open>{0..D-1}\<close> (\<open>D\<close> is the
  size of a nibble domain, 16 in the driver). Then every row \<open>delta_x\<close> in \<open>{0..D-1}\<close>
  exists and its counts sum to \<open>D\<close>.
\<close>

theorem ddt_row_sum:
  assumes init: "SP_Network_init ks subst perm = Inr n"
      and size: "int (length subst) = 2 ^ k"
      and vals: "\<forall>v\<in>snd ` set subst. 0 \<le> v \<and> v < int (length subst)"
      and dc: "dc = calculate_difference_distribution (DifferentialCryptanalysis_init n)"
  shows "\<forall>delta_x\<in>{0..int (length subst) - 1}.
           \<exists>row. dict_getitem (difference_distribution dc) delta_x = Inr row \<and>
                 sum_list (map snd row) = int (length subst)"
proof
  fix delta_x assume dx: "delta_x \<in> {0..int (length subst) - 1}"
  let ?D = "int (length subst)"
  note f = init_fields [OF init] and c = calculated_table [OF dc]
  let ?g = "\<lambda>x. sbox n x False XOR sbox n (x XOR delta_x) False"
  have row: "dict_getitem (difference_distribution dc) delta_x = Inr (ddt_row dc delta_x)"
    using dx by (simp add: dict_getitem_def c f)
  have rng: "\<forall>x\<in>set [0..?D - 1]. ?g x \<in> set [0..?D - 1]"
  proof
    fix x
    have "0 \<le> sbox n y False \<and> sbox n y False < 2 ^ k" for y
      by (rule sbox_range) (use vals size in \<open>simp add: f\<close>)
    then have "0 \<le> ?g x \<and> ?g x < 2 ^ k"
      by (simp add: XOR_upper)
    then show "?g x \<in> set [0..?D - 1]" by (simp add: size)
  qed
  have "sum_list (map snd (ddt_row dc delta_x))
          = (\<Sum>y\<leftarrow>[0..?D - 1]. int (length (filter (\<lambda>x. ?g x = y) [0..?D - 1])))"
    by (simp add: ddt_row_def ddt_count_filter c f py_range_def comp_def)
  also have "\<dots> = int (length [0..?D - 1])"
    using rng by (intro sum_list_fibres) simp_all
  also have "\<dots> = ?D" by simp
  finally show "\<exists>row. dict_getitem (difference_distribution dc) delta_x = Inr row \<and>
                  sum_list (map snd row) = ?D"
    using row by simp
qed

text \<open>Row 11 of the driver's table sums to 16.\<close>

theorem ddt_row_sum_witness:
  "\<exists>n row. SP_Network_init main_keys main_substitution main_permutation = Inr n \<and>
     dict_getitem (difference_distribution
        (calculate_difference_distribution (DifferentialCryptanalysis_init n))) 11 = Inr row \<and>
     sum_list (map snd row) = 16"
proof -
  obtain n where n: "SP_Network_init main_keys main_substitution main_permutation = Inr n"
    using main_network by blast
  have "(11 :: int) \<in> {0..int (length main_substitution) - 1}"
    by (simp add: main_substitution_def)
  with ddt_row_sum [OF n main_substitution_size main_substitution_values refl]
  have "\<exists>row. dict_getitem (difference_distribution
        (calculate_difference_distribution (DifferentialCryptanalysis_init n))) 11 = Inr row \<and>
     sum_list (map snd row) = int (length main_substitution)"
    by (rule bspec)
  with n show ?thesis by (simp add: main_substitution_def)
qed

subsection \<open>C4: the probability of the characteristic\<close>

text \<open>
  Claim C4, as amended. For a network built by the constructor with a substitution
  table of 16 entries whose values lie in \<open>{0..15}\<close> (every bijection of \<open>{0..15}\<close> is
  one) and a permutation table that maps \<open>{1..16}\<close> into \<open>{1..16}\<close>, and for its computed
  table, \<open>get_differential_characteristic\<close> returns, for every input difference (those
  in \<open>[0, 2^16)\<close> included), a pair whose probability \<open>p\<close> satisfies \<open>0 \<le> p \<le> 1\<close>, and
  \<open>0 < p\<close> when there are at most 69 round keys (at most 68 rounds): every round
  multiplies by a float that is at least \<open>2 ^ -16\<close>, and 67 such factors stay above the
  least positive float \<open>2 ^ -1074\<close>.
\<close>

theorem characteristic_probability:
  assumes init: "SP_Network_init ks subst perm = Inr n"
      and size: "length subst = 16"
      and vals: "snd ` set subst \<subseteq> {0..15}"
      and perm: "\<forall>i\<in>{1..16}. \<exists>p. map_of perm i = Some p \<and> 1 \<le> p \<and> p \<le> 16"
      and dc: "dc = calculate_difference_distribution (DifferentialCryptanalysis_init n)"
  shows "\<exists>u p. get_differential_characteristic dc delta_p = Inr (u, p) \<and>
           0 \<le> p \<and> p \<le> 1 \<and> (length ks \<le> 69 \<longrightarrow> 0 < p)"
proof -
  note f = init_fields [OF init] and c = calculated_table [OF dc]
  have ds: "SP_Network.data_size n = 16" by (simp add: f size)
  have rng: "\<forall>x. 0 \<le> sbox n x False \<and> sbox n x False < 16"
  proof
    fix x
    have "\<forall>v\<in>snd ` set (substitution n). 0 \<le> v \<and> v < 2 ^ 4"
      using vals by (auto simp add: f)
    from sbox_range [OF this, of x] show "0 \<le> sbox n x False \<and> sbox n x False < 16" by simp
  qed
  have pm: "\<forall>i\<in>{1..16}. map_of (permutation n) i = Some (dict_get perm i 0) \<and>
              dict_get perm i 0 \<le> 16"
    using perm by (auto simp add: f dict_get_def)
  define P where "P k s \<longleftrightarrow> (case s of (u, p) \<Rightarrow>
      0 \<le> p \<and> p \<le> 1 \<and> (16 * int k \<le> 1074 \<longrightarrow> 2 powi (- (16 * int k)) \<le> p))"
    for k and s :: "int \<times> rat"
  have "\<exists>s'. for_each (\<lambda>_ (u, probability).
        py_bind (get_output_difference dc u) (\<lambda>v.
        py_bind (get_difference_pair_probability dc u v) (\<lambda>q.
        py_bind (permute (sp_network dc) v) (\<lambda>u'.
        Inr (u', py_float_mul probability q)))))
       (py_range 0 (rounds (sp_network dc) - 1)) (delta_p, 1) = Inr s' \<and>
       P (length (py_range 0 (rounds (sp_network dc) - 1))) s'"
  proof (rule for_each_counted [where P = P])
    show "P 0 (delta_p, 1)" by (simp add: P_def)
  next
    fix k :: nat and s :: "int \<times> rat"
    assume s: "P k s"
    obtain u p where up: "s = (u, p)" by (cases s)
    with s have p: "0 \<le> p" "p \<le> 1" "16 * int k \<le> 1074 \<Longrightarrow> 2 powi (- (16 * int k)) \<le> p"
      by (simp_all add: P_def)
    from output_difference_nibbles [OF dc ds rng, of u]
    obtain v where v: "get_output_difference dc u = Inr v"
      and nib: "\<forall>j<4. (drop_bit (4 * j) u AND 15 = 0 \<longrightarrow> drop_bit (4 * j) v AND 15 = 0) \<and>
                   (drop_bit (4 * j) u AND 15 \<noteq> 0 \<longrightarrow>
                      get_max_delta_y dc (drop_bit (4 * j) u AND 15)
                        = Inr (drop_bit (4 * j) v AND 15))"
      by blast
    from pair_probability_bounds [OF dc ds rng nib]
    obtain q where q: "get_difference_pair_probability dc u v = Inr q" "2 powi (- 16) \<le> q" "q \<le> 1"
      by blast
    from permute_range [OF ds pm, of v]
    obtain u' where u': "permute n v = Inr u'" by blast
    have q0: "0 \<le> q" using q(2) zero_less_power_int [of "2::rat" "- 16"] by linarith
    have "P (Suc k) (u', py_float_mul p q)"
      unfolding P_def prod.case
    proof (intro conjI impI)
      show "0 \<le> py_float_mul p q" "py_float_mul p q \<le> 1"
        by (rule float_mul_unit [OF p(1,2) q0 q(3)])+
      assume k: "16 * int (Suc k) \<le> 1074"
      then have "2 powi (- (16 * int k)) \<le> p" by (intro p(3)) simp
      from float_mul_bounds(1) [OF this p(2) q(2,3)] k
      show "2 powi (- (16 * int (Suc k))) \<le> py_float_mul p q" by (simp add: algebra_simps)
    qed
    then show "\<exists>s'. (case s of (u, probability) \<Rightarrow>
        py_bind (get_output_difference dc u) (\<lambda>v.
        py_bind (get_difference_pair_probability dc u v) (\<lambda>q.
        py_bind (permute (sp_network dc) v) (\<lambda>u'.
        Inr (u', py_float_mul probability q))))) = Inr s' \<and> P (Suc k) s'"
      by (simp add: up v q(1) u' c)
  qed
  then obtain u p where r: "get_differential_characteristic dc delta_p = Inr (u, p)"
    and P: "P (length (py_range 0 (rounds (sp_network dc) - 1))) (u, p)"
    unfolding get_differential_characteristic_def by auto
  have len: "int (length (py_range 0 (rounds (sp_network dc) - 1))) = max 0 (int (length ks) - 2)"
    by (simp add: py_range_def c f)
  have "0 < p" if "length ks \<le> 69"
  proof -
    let ?k = "length (py_range 0 (rounds (sp_network dc) - 1))"
    have "16 * int ?k \<le> 1074" unfolding len using that by (simp add: max_def)
    with P have "2 powi (- (16 * int ?k)) \<le> p" by (simp add: P_def)
    then show ?thesis using zero_less_power_int [of "2::rat" "- (16 * int ?k)"] by linarith
  qed
  with r P show ?thesis by (auto simp add: P_def)
qed

text \<open>The driver's cipher and its input difference \<open>0x0B00 = 2816\<close>.\<close>

theorem characteristic_probability_witness:
  "\<exists>n u p. SP_Network_init main_keys main_substitution main_permutation = Inr n \<and>
     get_differential_characteristic
       (calculate_difference_distribution (DifferentialCryptanalysis_init n)) 2816 = Inr (u, p) \<and>
     0 < p \<and> p \<le> 1"
proof -
  obtain n where n: "SP_Network_init main_keys main_substitution main_permutation = Inr n"
    using main_network by blast
  have vals: "snd ` set main_substitution \<subseteq> {0..15}"
    by (simp add: main_substitution_bijection(3))
  have "length main_keys \<le> 69" by (simp add: main_keys_def)
  with characteristic_probability [OF n main_substitution_bijection(1) vals
         main_permutation_valid refl, of 2816]
  obtain u p where "get_differential_characteristic
       (calculate_difference_distribution (DifferentialCryptanalysis_init n)) 2816 = Inr (u, p)"
       "0 < p" "p \<le> 1"
    by blast
  with n show ?thesis by blast
qed

text \<open>
  The claim as stated, \<open>0 < p\<close> for every cipher, fails for long ciphers: with the
  driver's tables, 166 round keys 0 and the input difference \<open>431\<close> the float product
  underflows and the returned probability is \<open>0.0\<close>.
\<close>

theorem characteristic_probability_counterexample:
  "main_characteristic (replicate 166 0) main_substitution main_permutation 431 = Inr (50735, 0)"
  by (rule main_characteristic_underflow) simp

subsection \<open>C5: the bit permutation\<close>

text \<open>
  Claim C5. For a network built by the constructor whose permutation table maps every
  position \<open>i\<close> in \<open>{1..N}\<close> to a position \<open>\<pi> i\<close> in \<open>{1..N}\<close> (\<open>N\<close> the table size),
  \<open>permute\<close> returns a value whose bit \<open>N - i\<close> is bit \<open>N - \<pi> i\<close> of the input, for
  every \<open>i\<close> from 1 to \<open>N\<close>. This holds for every integer input, in particular for
  the inputs in \<open>[0, 2^N)\<close>.
\<close>

theorem permute_bit_positions:
  assumes init: "SP_Network_init ks subst perm = Inr n"
      and perm: "\<forall>i\<in>{1..int (length perm)}.
                   map_of perm i = Some (\<pi> i) \<and> 1 \<le> \<pi> i \<and> \<pi> i \<le> int (length perm)"
  shows "\<exists>y. permute n x = Inr y \<and>
           (\<forall>i\<in>{1..int (length perm)}.
              bit y (nat (int (length perm) - i)) = bit x (nat (int (length perm) - \<pi> i)))"
proof -
  let ?N = "int (length perm)"
  from init have n: "SP_Network.data_size n = ?N" "permutation n = perm"
    by (auto simp add: SP_Network_init_def split: if_splits)
  let ?f = "\<lambda>i out. out OR push_bit (nat (?N - i)) (drop_bit (nat (?N - \<pi> i)) x AND 1)"
  have "permute n x = Inr (fold ?f (py_range 1 (?N + 1)) 0)"
    unfolding permute_def n
    by (rule for_each_fold)
       (use perm in \<open>force simp add: py_range_def dict_getitem_def py_rshift_def py_lshift_def\<close>)
  moreover have "bit (fold ?f (py_range 1 (?N + 1)) 0) (nat (?N - i))
                   = bit x (nat (?N - \<pi> i))" if i: "i \<in> {1..?N}" for i
  proof -
    have "bit (fold ?f (py_range 1 (?N + 1)) 0) (nat (?N - i))
            = (\<exists>j\<in>{1..?N}. nat (?N - i) = nat (?N - j) \<and> bit x (nat (?N - \<pi> j)))"
      unfolding bit_fold_or py_range_def by simp
    also have "\<dots> = bit x (nat (?N - \<pi> i))"
    proof
      assume "\<exists>j\<in>{1..?N}. nat (?N - i) = nat (?N - j) \<and> bit x (nat (?N - \<pi> j))"
      then obtain j where j: "j \<in> {1..?N}" "nat (?N - i) = nat (?N - j)"
        and b: "bit x (nat (?N - \<pi> j))" by blast
      from i j have "j = i" by (simp add: nat_eq_iff)
      with b show "bit x (nat (?N - \<pi> i))" by simp
    next
      assume "bit x (nat (?N - \<pi> i))"
      with i show "\<exists>j\<in>{1..?N}. nat (?N - i) = nat (?N - j) \<and> bit x (nat (?N - \<pi> j))"
        by blast
    qed
    finally show ?thesis .
  qed
  ultimately show ?thesis by simp
qed

text \<open>The driver's network: bit 14 of \<open>permute 782\<close> is bit 11 of 782, as \<open>permutation[2] = 5\<close>.\<close>

theorem permute_bit_positions_witness:
  "\<exists>n y. SP_Network_init main_keys main_substitution main_permutation = Inr n \<and>
     permute n 782 = Inr y \<and> bit y (nat (16 - 2)) = bit (782 :: int) (nat (16 - 5))"
proof -
  obtain n where n: "SP_Network_init main_keys main_substitution main_permutation = Inr n"
    by (simp add: SP_Network_init_def main_permutation_def main_substitution_def)
  have len: "int (length main_permutation) = 16"
    by (simp add: main_permutation_def)
  from permute_bit_positions [OF n main_perm_ok, of 782]
  obtain y where y: "permute n 782 = Inr y"
    and b: "\<forall>i\<in>{1..16}. bit y (nat (16 - i)) = bit (782 :: int) (nat (16 - dict_get main_permutation i 0))"
    unfolding len by blast
  have "(2 :: int) \<in> {1..16}" by simp
  with b have "bit y (nat (16 - 2)) = bit (782 :: int) (nat (16 - dict_get main_permutation 2 0))"
    by (rule bspec)
  then have "bit y (nat (16 - 2)) = bit (782 :: int) (nat (16 - 5))"
    by (simp add: main_permutation_def dict_get_def)
  with n y show ?thesis by blast
qed

subsection \<open>C6: ties go to the first maximum\<close>

text \<open>
  Claim C6. For a network built by the constructor and its computed table:
  for every \<open>delta_x\<close> in \<open>{0..D-1}\<close>, \<open>get_max_delta_y\<close> returns a \<open>dy\<close> whose count is
  maximal in the row and strictly greater than the count of every smaller
  \<open>delta_y\<close>, that is the smallest \<open>delta_y\<close> with the maximal count; and when the
  target difference has an active nibble (and \<open>N = 4 m\<close>, \<open>m \<ge> 4\<close>, so that no shift
  raises), \<open>perform_attack\<close> returns the candidate of an index \<open>i\<close> of its enumeration
  \<open>1, 2, ...\<close> whose pair count is maximal and strictly greater than the pair count
  of every candidate generated before \<open>i\<close>.
\<close>

theorem first_maximum_selected:
  assumes init: "SP_Network_init ks subst perm = Inr n"
      and dc: "dc = calculate_difference_distribution (DifferentialCryptanalysis_init n)"
  shows "(\<forall>delta_x\<in>{0..int (length subst) - 1}.
            \<exists>row dy c. dict_getitem (difference_distribution dc) delta_x = Inr row \<and>
              get_max_delta_y dc delta_x = Inr dy \<and> dict_getitem row dy = Inr c \<and>
              (\<forall>dy'\<in>{0..int (length subst) - 1}.
                 \<exists>c'. dict_getitem row dy' = Inr c' \<and> c' \<le> c \<and> (dy' < dy \<longrightarrow> c' < c))) \<and>
         (int (length subst) = 4 * int m \<and> 4 \<le> m \<and> get_active_sboxes diff \<noteq> [] \<longrightarrow>
            (\<exists>i\<in>{1..(2 ^ 4) ^ length (get_active_sboxes diff) - 1}. \<exists>k v.
               perform_attack dc pairs diff = Inr (Some k) \<and>
               convert_to_block dc (get_active_sboxes diff) i = Inr k \<and>
               pair_count dc pairs diff k = Inr v \<and>
               (\<forall>j\<in>{1..(2 ^ 4) ^ length (get_active_sboxes diff) - 1}. \<exists>kj vj.
                  convert_to_block dc (get_active_sboxes diff) j = Inr kj \<and>
                  pair_count dc pairs diff kj = Inr vj \<and> vj \<le> v \<and> (j < i \<longrightarrow> vj < v))))"
proof (intro conjI ballI impI)
  note f = init_fields [OF init] and c = calculated_table [OF dc]
  let ?D = "int (length subst)"
  fix delta_x assume dx: "delta_x \<in> {0..?D - 1}"
  then have dx': "0 \<le> delta_x" "delta_x < SP_Network.data_size n"
    by (simp_all add: f)
  from dx have D: "0 < ?D" by (cases subst) simp_all
  have row: "dict_getitem (difference_distribution dc) delta_x = Inr (ddt_row dc delta_x)"
    using dx' by (rule calculated_row [OF dc])
  have ent: "dict_getitem (ddt_row dc delta_x) dy = Inr (ddt_count dc delta_x dy)"
    if "0 \<le> dy \<and> dy < ?D" for dy
    using that by (intro calculated_entry [OF dc]) (simp_all add: f)
  from first_max_row [OF D, of "ddt_count dc delta_x"]
  obtain dy where dy: "0 \<le> dy \<and> dy < ?D"
      "py_max_key (ddt_row dc delta_x) = Inr dy"
      "\<forall>dy'. 0 \<le> dy' \<and> dy' < ?D \<longrightarrow> ddt_count dc delta_x dy' \<le> ddt_count dc delta_x dy \<and>
          (dy' < dy \<longrightarrow> ddt_count dc delta_x dy' < ddt_count dc delta_x dy)"
    unfolding ddt_row_def c f by blast
  have "get_max_delta_y dc delta_x = Inr dy"
    by (simp add: get_max_delta_y_def row dy(2))
  moreover have "\<forall>dy'\<in>{0..?D - 1}. \<exists>c'. dict_getitem (ddt_row dc delta_x) dy' = Inr c' \<and>
      c' \<le> ddt_count dc delta_x dy \<and> (dy' < dy \<longrightarrow> c' < ddt_count dc delta_x dy)"
    using dy(3) ent by simp
  ultimately show "\<exists>row dy c. dict_getitem (difference_distribution dc) delta_x = Inr row \<and>
              get_max_delta_y dc delta_x = Inr dy \<and> dict_getitem row dy = Inr c \<and>
              (\<forall>dy'\<in>{0..?D - 1}.
                 \<exists>c'. dict_getitem row dy' = Inr c' \<and> c' \<le> c \<and> (dy' < dy \<longrightarrow> c' < c))"
    using row ent [OF dy(1)] by blast
next
  note f = init_fields [OF init] and c = calculated_table [OF dc]
  let ?active = "get_active_sboxes diff"
  let ?num = "(2 ^ 4) ^ length ?active :: int"
  let ?cands = "py_range 1 ?num"
  assume a: "int (length subst) = 4 * int m \<and> 4 \<le> m \<and> ?active \<noteq> []"
  then have ds: "16 \<le> data_size dc" "SP_Network.data_size (sp_network dc) = 4 * int m"
    by (simp_all add: c f)
  from perform_attack_char [OF ds, of diff pairs] a
  obtain p k v where p: "p < length ?cands"
      "perform_attack dc pairs diff = Inr (Some k)"
      "convert_to_block dc ?active (?cands ! p) = Inr k"
      "pair_count dc pairs diff k = Inr v"
      "\<forall>q<length ?cands. \<exists>kq vq.
          convert_to_block dc ?active (?cands ! q) = Inr kq \<and>
          pair_count dc pairs diff kq = Inr vq \<and> vq \<le> v \<and> (q < p \<longrightarrow> vq < v)"
    by blast
  let ?i = "1 + int p"
  have i: "?cands ! p = ?i" using p(1) by (rule nth_py_range)
  have mem: "?i \<in> {1..?num - 1}" using p(1) by (simp add: py_range_def)
  have "\<exists>kj vj. convert_to_block dc ?active j = Inr kj \<and>
          pair_count dc pairs diff kj = Inr vj \<and> vj \<le> v \<and> (j < ?i \<longrightarrow> vj < v)"
    if j: "j \<in> {1..?num - 1}" for j
  proof -
    from j py_range_index [of 1 j ?num]
    have q: "nat (j - 1) < length ?cands" "?cands ! nat (j - 1) = j" by simp_all
    from p(5) q(1) obtain kq vq where
      "convert_to_block dc ?active (?cands ! nat (j - 1)) = Inr kq"
      "pair_count dc pairs diff kq = Inr vq" "vq \<le> v" "nat (j - 1) < p \<longrightarrow> vq < v"
      by blast
    moreover have "nat (j - 1) < p" if "j < ?i"
    proof -
      from j have "1 \<le> j" by simp
      with that show ?thesis by linarith
    qed
    ultimately show ?thesis unfolding q(2) by blast
  qed
  with p(2,3,4) mem show "\<exists>i\<in>{1..?num - 1}. \<exists>k v.
               perform_attack dc pairs diff = Inr (Some k) \<and>
               convert_to_block dc ?active i = Inr k \<and>
               pair_count dc pairs diff k = Inr v \<and>
               (\<forall>j\<in>{1..?num - 1}. \<exists>kj vj.
                  convert_to_block dc ?active j = Inr kj \<and>
                  pair_count dc pairs diff kj = Inr vj \<and> vj \<le> v \<and> (j < i \<longrightarrow> vj < v))"
    unfolding i by blast
qed

text \<open>The driver's network: row 11, and the attack on one pair with target difference 1.\<close>

theorem first_maximum_selected_witness:
  "\<exists>n dy k. SP_Network_init main_keys main_substitution main_permutation = Inr n \<and>
     get_max_delta_y (calculate_difference_distribution (DifferentialCryptanalysis_init n)) 11
       = Inr dy \<and>
     perform_attack (calculate_difference_distribution (DifferentialCryptanalysis_init n))
       [(0, 0)] 1 = Inr (Some k)"
proof -
  obtain n where n: "SP_Network_init main_keys main_substitution main_permutation = Inr n"
    using main_network by blast
  let ?dc = "calculate_difference_distribution (DifferentialCryptanalysis_init n)"
  note t = first_maximum_selected [OF n refl, of 4 1 "[(0, 0)]"]
  have "(11 :: int) \<in> {0..int (length main_substitution) - 1}"
    by (simp add: main_substitution_def)
  with t [THEN conjunct1] have "\<exists>row dy c. dict_getitem (difference_distribution ?dc) 11 = Inr row \<and>
      get_max_delta_y ?dc 11 = Inr dy \<and> dict_getitem row dy = Inr c \<and>
      (\<forall>dy'\<in>{0..int (length main_substitution) - 1}.
         \<exists>c'. dict_getitem row dy' = Inr c' \<and> c' \<le> c \<and> (dy' < dy \<longrightarrow> c' < c))"
    by (rule bspec)
  then obtain dy where dy: "get_max_delta_y ?dc 11 = Inr dy" by blast
  have "int (length main_substitution) = 4 * int 4 \<and> (4 :: nat) \<le> 4 \<and> get_active_sboxes 1 \<noteq> []"
    using active_sboxes_1 by (simp add: main_substitution_def)
  with t [THEN conjunct2] obtain k where "perform_attack ?dc [(0, 0)] 1 = Inr (Some k)"
    by blast
  with n dy show ?thesis by blast
qed

subsection \<open>C7: the size check of the constructor\<close>

text \<open>
  Claim C7. The constructor raises its error (Python's ValueError) exactly when the
  two tables differ in size, and returns a network exactly when they have the same
  size. The error comes before any cipher operation: the driver's encrypt and decrypt
  steps are not reached, its result is the constructor's error.
\<close>

theorem SP_Network_init_size_check:
  "(SP_Network_init ks subst perm = Inl ValueError) = (length subst \<noteq> length perm) \<and>
   (\<exists>n. SP_Network_init ks subst perm = Inr n) = (length subst = length perm) \<and>
   (length subst \<noteq> length perm \<longrightarrow> main_cipher ks subst perm x = Inl ValueError)"
  by (simp add: SP_Network_init_def main_cipher_def)

theorem SP_Network_init_size_check_witness:
  "length [(0::int, 0::int)] \<noteq> length main_permutation \<and>
   SP_Network_init main_keys [(0, 0)] main_permutation = Inl ValueError \<and>
   main_cipher main_keys [(0, 0)] main_permutation 782 = Inl ValueError \<and>
   (\<exists>n. SP_Network_init main_keys main_substitution main_permutation = Inr n)"
  using SP_Network_init_size_check [of main_keys "[(0, 0)]" main_permutation 782]
        SP_Network_init_size_check [of main_keys main_substitution main_permutation 782]
  by (simp add: main_permutation_def main_substitution_def)


subsection \<open>C8: active nibbles of 0x1003\<close>

text \<open>
  Claim C8. \<open>get_active_sboxes\<close> applied to 0x1003 (4099) returns the list \<open>[4, 1]\<close>:
  the least significant nibble (position 4) first, then the most significant one
  (position 1).
\<close>

theorem get_active_sboxes_0x1003: "get_active_sboxes 0x1003 = [4, 1]"
  by (simp add: get_active_sboxes_def py_range_def upto.simps)


subsection \<open>C9: the entries of the difference distribution table are even\<close>

text \<open>
  Claim C9. For a network built by the constructor whose substitution table has
  \<open>D = 2^k\<close> entries, \<open>k > 0\<close> (\<open>D = 16\<close> is \<open>k = 4\<close>), whatever the entries are, every
  entry \<open>table[delta_x][delta_y]\<close> with \<open>delta_x\<close> and \<open>delta_y\<close> in \<open>{0..D-1}\<close> exists and
  is even: for \<open>delta_x \<noteq> 0\<close> the inputs \<open>x\<close> and \<open>x XOR delta_x\<close> fall into the same
  cell in pairs, and for \<open>delta_x = 0\<close> all \<open>D\<close> inputs fall into the cell \<open>(0, 0)\<close>.
\<close>

theorem ddt_entries_even:
  assumes init: "SP_Network_init ks subst perm = Inr n"
      and size: "int (length subst) = 2 ^ k" and k: "0 < k"
      and dc: "dc = calculate_difference_distribution (DifferentialCryptanalysis_init n)"
  shows "\<forall>delta_x\<in>{0..int (length subst) - 1}. \<forall>delta_y\<in>{0..int (length subst) - 1}.
           \<exists>row c. dict_getitem (difference_distribution dc) delta_x = Inr row \<and>
                   dict_getitem row delta_y = Inr c \<and> c mod 2 = 0"
proof (intro ballI)
  fix delta_x delta_y
  let ?D = "int (length subst)"
  assume dx: "delta_x \<in> {0..?D - 1}" and dy: "delta_y \<in> {0..?D - 1}"
  note f = init_fields [OF init] and c = calculated_table [OF dc]
  let ?g = "\<lambda>x. sbox n x False XOR sbox n (x XOR delta_x) False"
  let ?A = "{x\<in>{0..?D - 1}. ?g x = delta_y}"
  have e: "dict_getitem (difference_distribution dc) delta_x = Inr (ddt_row dc delta_x)"
          "dict_getitem (ddt_row dc delta_x) delta_y = Inr (ddt_count dc delta_x delta_y)"
    using dx dy by (simp_all add: calculated_row [OF dc] calculated_entry [OF dc] f)
  have cnt: "ddt_count dc delta_x delta_y = int (card ?A)"
    by (simp add: ddt_count_filter c f py_range_def filter_card)
  have "even (card ?A)"
  proof (cases "delta_x = 0")
    case True
    then have "?A = (if delta_y = 0 then {0..?D - 1} else {})" by auto
    then have "card ?A = (if delta_y = 0 then 2 ^ k else 0)"
      using size by (simp split: if_splits)
    with k show ?thesis by simp
  next
    case False
    show ?thesis
    proof (rule even_card_involution [where f = "\<lambda>x. x XOR delta_x"])
      show "finite ?A" by (rule finite_subset [where B = "{0..?D - 1}"]) auto
      show "\<forall>x\<in>?A. x XOR delta_x \<in> ?A \<and> (x XOR delta_x) XOR delta_x = x \<and> x XOR delta_x \<noteq> x"
      proof
        fix x assume x: "x \<in> ?A"
        have "0 \<le> x XOR delta_x \<and> x XOR delta_x < 2 ^ k"
          using x dx size by (simp add: XOR_upper)
        moreover have "?g (x XOR delta_x) = ?g x"
          by (simp add: xor.assoc xor.commute)
        moreover have "x XOR delta_x \<noteq> x"
        proof
          assume "x XOR delta_x = x"
          then have "x XOR (x XOR delta_x) = x XOR x" by simp
          then have "delta_x = 0" by (simp add: xor.assoc [symmetric])
          with False show False by simp
        qed
        ultimately show "x XOR delta_x \<in> ?A \<and> (x XOR delta_x) XOR delta_x = x \<and> x XOR delta_x \<noteq> x"
          using x size by (simp add: xor.assoc)
      qed
    qed
  qed
  then have "ddt_count dc delta_x delta_y mod 2 = 0"
    unfolding cnt by presburger
  with e show "\<exists>row c. dict_getitem (difference_distribution dc) delta_x = Inr row \<and>
                   dict_getitem row delta_y = Inr c \<and> c mod 2 = 0"
    by simp
qed

text \<open>The entry \<open>table[11][2]\<close> of the driver's table is even.\<close>

theorem ddt_entries_even_witness:
  "\<exists>n row c. SP_Network_init main_keys main_substitution main_permutation = Inr n \<and>
     dict_getitem (difference_distribution
        (calculate_difference_distribution (DifferentialCryptanalysis_init n))) 11 = Inr row \<and>
     dict_getitem row 2 = Inr c \<and> c mod 2 = 0"
proof -
  obtain n where n: "SP_Network_init main_keys main_substitution main_permutation = Inr n"
    using main_network by blast
  have m: "(11 :: int) \<in> {0..int (length main_substitution) - 1}"
          "(2 :: int) \<in> {0..int (length main_substitution) - 1}"
    by (simp_all add: main_substitution_def)
  have "(0 :: nat) < 4" by simp
  note ddt_entries_even [OF n main_substitution_size this refl]
  from this m(1) have "\<forall>delta_y\<in>{0..int (length main_substitution) - 1}.
           \<exists>row c. dict_getitem (difference_distribution
        (calculate_difference_distribution (DifferentialCryptanalysis_init n))) 11 = Inr row \<and>
                   dict_getitem row delta_y = Inr c \<and> c mod 2 = 0"
    by (rule bspec)
  from this m(2) have "\<exists>row c. dict_getitem (difference_distribution
        (calculate_difference_distribution (DifferentialCryptanalysis_init n))) 11 = Inr row \<and>
                   dict_getitem row 2 = Inr c \<and> c mod 2 = 0"
    by (rule bspec)
  with n show ?thesis by auto
qed

subsection \<open>C10: the operations stay within the block width\<close>

text \<open>
  Claim C10. Let the network be built by the constructor from a non-empty key list
  with every key in \<open>[0, 2^N)\<close>, a substitution table of \<open>N = 4 m\<close> entries whose keys
  and values lie in \<open>[0, 16)\<close>, and a permutation table that maps \<open>{1..N}\<close> into
  \<open>{1..N}\<close>. Then for every input in \<open>[0, 2^N)\<close>, \<open>keymix\<close> (for every round index),
  \<open>substitute\<close> (forward and inverse), \<open>permute\<close>, \<open>encrypt\<close> and \<open>decrypt\<close> return
  a value in \<open>[0, 2^N)\<close>, although none of them masks its result.
\<close>

theorem range_preservation:
  assumes init: "SP_Network_init ks subst perm = Inr n"
      and size: "int (length subst) = 4 * int m"
      and keys: "ks \<noteq> []" "\<forall>k\<in>set ks. 0 \<le> k \<and> k < 2 ^ (4 * m)"
      and sub: "\<forall>(a, v)\<in>set subst. 0 \<le> a \<and> a < 16 \<and> 0 \<le> v \<and> v < 16"
      and perm: "\<forall>i\<in>{1..int (length perm)}.
                   \<exists>p. map_of perm i = Some p \<and> 1 \<le> p \<and> p \<le> int (length perm)"
      and x: "0 \<le> x" "x < 2 ^ (4 * m)"
  shows "(\<forall>r\<in>{0..rounds n}. \<exists>y. keymix n r x = Inr y \<and> 0 \<le> y \<and> y < 2 ^ (4 * m)) \<and>
         (\<exists>y. substitute n x False = Inr y \<and> 0 \<le> y \<and> y < 2 ^ (4 * m)) \<and>
         (\<exists>y. substitute n x True = Inr y \<and> 0 \<le> y \<and> y < 2 ^ (4 * m)) \<and>
         (\<exists>y. permute n x = Inr y \<and> 0 \<le> y \<and> y < 2 ^ (4 * m)) \<and>
         (\<exists>y. encrypt n x = Inr y \<and> 0 \<le> y \<and> y < 2 ^ (4 * m)) \<and>
         (\<exists>y. decrypt n x = Inr y \<and> 0 \<le> y \<and> y < 2 ^ (4 * m))"
proof -
  note f = init_fields [OF init]
  define P where "P y \<longleftrightarrow> 0 \<le> y \<and> y < 2 ^ (4 * m)" for y :: int
  have ds: "SP_Network.data_size n = 4 * int m" by (simp add: f size)
  have K: "\<exists>z. keymix n r y = Inr z \<and> P z"
    if "- int (length ks) \<le> r" "r < int (length ks)" "P y" for r y
    unfolding P_def using that keys(2)
    by (intro keymix_range) (simp_all add: f P_def)
  have S: "\<exists>z. substitute n y invert = Inr z \<and> P z" for y invert
    unfolding P_def by (rule substitute_range [OF ds]) (simp_all add: f sub)
  have "\<forall>i\<in>{1..4 * int m}. map_of (permutation n) i = Some (dict_get perm i 0) \<and>
          dict_get perm i 0 \<le> 4 * int m"
    using perm by (auto simp add: f size dict_get_def)
  from permute_range [OF ds this]
  have Pm: "\<exists>z. permute n y = Inr z \<and> P z" for y
  proof -
    have "nat (4 * int m) = 4 * m" by simp
    with \<open>\<And>x. \<exists>y. permute n x = Inr y \<and> 0 \<le> y \<and> y < 2 ^ nat (4 * int m)\<close>
    show ?thesis by (simp only: P_def)
  qed
  have len: "Suc 0 \<le> length ks" using keys(1) by (cases ks) simp_all
  have R: "\<exists>z. run_round n i y = Inr z \<and> P z" if "0 \<le> i" "i < int (length ks)" "P y" for i y
    unfolding run_round_def
    by (intro py_bind_range [where P = P] K S Pm) (use that in auto)
  have RR: "\<exists>z. run_reverse_round n i y = Inr z \<and> P z"
    if "0 \<le> i" "i < int (length ks)" "P y" for i y
    unfolding run_reverse_round_def
    by (intro py_bind_range [where P = P] K S Pm) (use that in auto)
  have L: "\<exists>z. run_last_round n y = Inr z \<and> P z" if "P y" for y
    unfolding run_last_round_def f
    by (intro py_bind_range [where P = P] K S) (use that len in auto)
  have RL: "\<exists>z. run_reverse_last_round n y = Inr z \<and> P z" if "P y" for y
    unfolding run_reverse_last_round_def f
    by (intro py_bind_range [where P = P] K S) (use that len in auto)
  have px: "P x" using x by (simp add: P_def)
  have "\<exists>z. encrypt n x = Inr z \<and> P z"
    unfolding encrypt_def
    by (intro py_bind_range [where P = P] for_each_invariant [where P = P] R L px)
       (auto simp add: py_range_def f)
  moreover have "\<exists>z. decrypt n x = Inr z \<and> P z"
    unfolding decrypt_def
    by (intro py_bind_range [where P = P] for_each_invariant [where P = P] RR RL px)
       (auto simp add: py_range_def f)
  moreover have "\<forall>r\<in>{0..rounds n}. \<exists>z. keymix n r x = Inr z \<and> P z"
    using px by (auto intro!: K simp add: f)
  ultimately show ?thesis
    using S [of x False] S [of x True] Pm [of x] by (simp add: P_def)
qed

text \<open>The driver's cipher at the input 782.\<close>

theorem range_preservation_witness:
  "\<exists>n y z. SP_Network_init main_keys main_substitution main_permutation = Inr n \<and>
     encrypt n 782 = Inr y \<and> 0 \<le> y \<and> y < 2 ^ 16 \<and>
     decrypt n 782 = Inr z \<and> 0 \<le> z \<and> z < 2 ^ 16"
proof -
  obtain n where n: "SP_Network_init main_keys main_substitution main_permutation = Inr n"
    using main_network by blast
  have size: "int (length main_substitution) = 4 * int 4"
    by (simp add: main_substitution_def)
  have perm: "\<forall>i\<in>{1..int (length main_permutation)}.
      \<exists>p. map_of main_permutation i = Some p \<and> 1 \<le> p \<and> p \<le> int (length main_permutation)"
    using main_perm_ok by blast
  have keys: "\<forall>k\<in>set main_keys. 0 \<le> k \<and> k < 2 ^ (4 * 4)"
    using main_keys_range(2) by simp
  have "(\<exists>y. encrypt n 782 = Inr y \<and> 0 \<le> y \<and> y < 2 ^ (4 * 4)) \<and>
        (\<exists>z. decrypt n 782 = Inr z \<and> 0 \<le> z \<and> z < 2 ^ (4 * 4))"
    using range_preservation [OF n size main_keys_range(1) keys main_substitution_nibbles perm,
            of 782]
    by simp
  with n show ?thesis by auto
qed


end
